theory Spec2Isabelle
  imports Main "HOL-Library.Word"
begin

unbundle bit_operations_syntax

section \<open>Driver-model core: shared data model\<close>

text \<open>
  The embedding covers \<^verbatim>\<open>drivers/core/lists.c\<close> and \<^verbatim>\<open>drivers/core/root.c\<close>.
  C return codes are \<^typ>\<open>int\<close>; a pointer that may be \<^verbatim>\<open>NULL\<close> is an
  \<^typ>\<open>'a option\<close>. Functions of the driver model that are called here but defined in
  other files (\<^verbatim>\<open>device_bind_by_name\<close>, \<^verbatim>\<open>device_bind_with_driver_data\<close>,
  \<^verbatim>\<open>device_probe\<close>, \<^verbatim>\<open>device_remove\<close>, \<^verbatim>\<open>device_unbind\<close>)
  are parameters: each takes the state of the rest of the
  system (\<open>'w\<close>) and returns its result with the new state. Every call of such a
  function is appended to the list \<open>calls\<close>, so that theorems can speak about which
  calls were made, with which arguments, and in which order. Log output is not modelled.
\<close>

subsection \<open>Error numbers\<close>

text \<open>
  The error numbers that the two files name, with their values in \<^verbatim>\<open>errno.h\<close>. The
  source negates them: \<^verbatim>\<open>-ENOENT\<close> is no driver for a descriptor, \<^verbatim>\<open>-EPERM\<close> a bind
  that is not permitted before relocation, \<^verbatim>\<open>-EAGAIN\<close> a pass that left a descriptor
  waiting for its parent, \<^verbatim>\<open>-ENODEV\<close> a driver that refuses to bind.
\<close>

definition EPERM :: int where "EPERM = 1"
definition ENOENT :: int where "ENOENT = 2"
definition EAGAIN :: int where "EAGAIN = 11"
definition ENODEV :: int where "ENODEV = 19"

text \<open>\<^verbatim>\<open>FDT_ERR_NOTFOUND\<close> of libfdt: the property does not exist.\<close>

definition FDT_ERR_NOTFOUND :: int where "FDT_ERR_NOTFOUND = 1"

subsection \<open>Devices, calls and global data\<close>

text \<open>A non-null \<^verbatim>\<open>struct udevice *\<close>.\<close>

type_synonym udevice_ptr = nat

text \<open>The two \<^verbatim>\<open>device_remove\<close> flag values that \<^verbatim>\<open>dm_uninit\<close> passes.\<close>

datatype remove_flags = DM_REMOVE_NORMAL | DM_REMOVE_NON_VITAL

text \<open>
  One entry per call of an external function. \<open>Bind_by_name par pre idx ret\<close>:
  \<^verbatim>\<open>device_bind_by_name(par, pre, info + idx, &dev)\<close> returned \<open>ret\<close>.
  \<open>Bind_with_driver_data par k name data ret\<close>:
  \<^verbatim>\<open>device_bind_with_driver_data(par, driver + k, name, data, node, &dev)\<close> returned
  \<open>ret\<close>.
\<close>

datatype call =
    Bind_by_name "udevice_ptr option" bool nat int
  | Bind_with_driver_data "udevice_ptr option" nat string nat int
  | Device_probe udevice_ptr int
  | Device_remove "udevice_ptr option" remove_flags int
  | Device_unbind "udevice_ptr option" int

text \<open>The value a call returned.\<close>

fun call_ret :: "call \<Rightarrow> int" where
  "call_ret (Bind_by_name par pre idx ret) = ret"
| "call_ret (Bind_with_driver_data par k name data ret) = ret"
| "call_ret (Device_probe dev ret) = ret"
| "call_ret (Device_remove dev flags ret) = ret"
| "call_ret (Device_unbind dev ret) = ret"

text \<open>
  The part of \<^verbatim>\<open>gd\<close> the two files use: \<^verbatim>\<open>gd->dm_root\<close>, the table
  \<^verbatim>\<open>gd_dm_driver_rt()\<close> (entry \<open>i\<close> is \<^verbatim>\<open>driver_rt[i].dev\<close>), the state of the
  rest of the system and the calls made so far.
\<close>

record 'w global_data =
  gd_dm_root :: "udevice_ptr option"
  gd_dm_driver_rt :: "udevice_ptr option list"
  world :: 'w
  calls :: "call list"

text \<open>The calls added between an earlier state and a later one.\<close>

definition new_calls :: "'w global_data \<Rightarrow> 'w global_data \<Rightarrow> call list" where
  "new_calls gd gd' = drop (length (calls gd)) (calls gd')"

section \<open>lists.c: binding the static descriptors\<close>

text \<open>
  \<^verbatim>\<open>struct driver_info\<close>: the driver name and the index of the parent's entry, which
  \<^verbatim>\<open>driver_info_parent_id(entry)\<close> reads (-1 for no parent).
\<close>

record driver_info =
  info_name :: string
  parent_idx :: int

text \<open>The \<^verbatim>\<open>CONFIG_IS_ENABLED\<close> options that \<^verbatim>\<open>bind_drivers_pass\<close> tests.\<close>

record config =
  OF_PLATDATA :: bool
  OF_PLATDATA_PARENT :: bool

text \<open>
  \<^verbatim>\<open>(gd_dm_driver_rt() + i)->dev\<close>. The C code reads outside the table when \<open>i\<close>
  is out of range; the model reads \<^verbatim>\<open>NULL\<close> there.
\<close>

definition drt_dev :: "udevice_ptr option list \<Rightarrow> int \<Rightarrow> udevice_ptr option" where
  "drt_dev drt i = (if 0 \<le> i \<and> nat i < length drt then drt ! nat i else None)"

type_synonym 'w bind_by_name_fn =
  "udevice_ptr option \<Rightarrow> bool \<Rightarrow> nat \<Rightarrow> 'w \<Rightarrow> int \<times> udevice_ptr \<times> 'w"

text \<open>
  The call \<^verbatim>\<open>device_bind_by_name(par, pre_reloc_only, entry, &dev)\<close> with
  \<^verbatim>\<open>entry = info + idx\<close>; \<open>dev\<close> is meaningful only when the return value is 0.
\<close>

definition device_bind_by_name ::
  "'w bind_by_name_fn \<Rightarrow> udevice_ptr option \<Rightarrow> bool \<Rightarrow> nat \<Rightarrow> 'w global_data
    \<Rightarrow> int \<times> udevice_ptr \<times> 'w global_data" where
  "device_bind_by_name ext par pre_reloc_only idx gd =
     (case ext par pre_reloc_only idx (world gd) of
        (ret, dev, w') \<Rightarrow>
          (ret, dev, gd\<lparr>world := w', calls := calls gd @ [Bind_by_name par pre_reloc_only idx ret]\<rparr>))"

text \<open>
  The body of the loop of \<^verbatim>\<open>bind_drivers_pass\<close> for the entry at index \<open>idx\<close>.
  The loop state is \<open>(missing_parent, result, gd)\<close>.
\<close>

definition bind_drivers_step ::
  "config \<Rightarrow> 'w bind_by_name_fn \<Rightarrow> udevice_ptr option \<Rightarrow> bool \<Rightarrow> nat \<Rightarrow> driver_info
    \<Rightarrow> bool \<times> int \<times> 'w global_data \<Rightarrow> bool \<times> int \<times> 'w global_data" where
  "bind_drivers_step cfg ext parent pre_reloc_only idx entry st =
     (case st of (missing_parent, result, gd) \<Rightarrow>
        if OF_PLATDATA cfg \<and> drt_dev (gd_dm_driver_rt gd) (int idx) \<noteq> None then st
        else if OF_PLATDATA cfg \<and> OF_PLATDATA_PARENT cfg \<and> parent_idx entry \<noteq> - 1
                \<and> drt_dev (gd_dm_driver_rt gd) (parent_idx entry) = None
        then (True, result, gd)
        else
          let par = (if OF_PLATDATA cfg \<and> OF_PLATDATA_PARENT cfg \<and> parent_idx entry \<noteq> - 1
                     then drt_dev (gd_dm_driver_rt gd) (parent_idx entry) else parent)
          in case device_bind_by_name ext par pre_reloc_only idx gd of
               (ret, dev, gd1) \<Rightarrow>
                 if ret = 0 then
                   (missing_parent, result,
                    if OF_PLATDATA cfg
                    then gd1\<lparr>gd_dm_driver_rt := (gd_dm_driver_rt gd1)[idx := Some dev]\<rparr>
                    else gd1)
                 else if ret \<noteq> - EPERM then
                   (missing_parent, if result = 0 \<or> ret \<noteq> - ENOENT then ret else result, gd1)
                 else (missing_parent, result, gd1))"

text \<open>The loop \<^verbatim>\<open>for (idx = 0; idx < n_ents; idx++)\<close>, from index \<open>idx\<close> on.\<close>

fun bind_drivers_loop ::
  "config \<Rightarrow> 'w bind_by_name_fn \<Rightarrow> udevice_ptr option \<Rightarrow> bool \<Rightarrow> nat \<Rightarrow> driver_info list
    \<Rightarrow> bool \<times> int \<times> 'w global_data \<Rightarrow> bool \<times> int \<times> 'w global_data" where
  "bind_drivers_loop cfg ext parent pre_reloc_only idx [] st = st"
| "bind_drivers_loop cfg ext parent pre_reloc_only idx (entry # rest) st =
     bind_drivers_loop cfg ext parent pre_reloc_only (Suc idx) rest
       (bind_drivers_step cfg ext parent pre_reloc_only idx entry st)"

text \<open>\<^verbatim>\<open>bind_drivers_pass(parent, pre_reloc_only)\<close> over the table \<open>info\<close>.\<close>

definition bind_drivers_pass ::
  "config \<Rightarrow> driver_info list \<Rightarrow> 'w bind_by_name_fn \<Rightarrow> udevice_ptr option \<Rightarrow> bool
    \<Rightarrow> 'w global_data \<Rightarrow> int \<times> 'w global_data" where
  "bind_drivers_pass cfg info ext parent pre_reloc_only gd =
     (case bind_drivers_loop cfg ext parent pre_reloc_only 0 info (False, 0, gd) of
        (missing_parent, result, gd') \<Rightarrow>
          (if result \<noteq> 0 then result else if missing_parent then - EAGAIN else 0, gd'))"

text \<open>
  The loop \<^verbatim>\<open>for (pass = 0; pass < 10; pass++)\<close> of \<^verbatim>\<open>lists_bind_drivers\<close>:
  \<open>n\<close> is the number of passes still allowed (\<^verbatim>\<open>10 - pass\<close>).
\<close>

fun bind_passes ::
  "config \<Rightarrow> driver_info list \<Rightarrow> 'w bind_by_name_fn \<Rightarrow> udevice_ptr option \<Rightarrow> bool
    \<Rightarrow> nat \<Rightarrow> int \<Rightarrow> 'w global_data \<Rightarrow> int \<times> 'w global_data" where
  "bind_passes cfg info ext parent pre_reloc_only 0 result gd = (result, gd)"
| "bind_passes cfg info ext parent pre_reloc_only (Suc n) result gd =
     (case bind_drivers_pass cfg info ext parent pre_reloc_only gd of
        (ret, gd') \<Rightarrow>
          let result' = (if result = 0 \<or> result = - EAGAIN then ret else result)
          in if ret \<noteq> - EAGAIN then (result', gd')
             else bind_passes cfg info ext parent pre_reloc_only n result' gd')"

definition lists_bind_drivers ::
  "config \<Rightarrow> driver_info list \<Rightarrow> 'w bind_by_name_fn \<Rightarrow> udevice_ptr option \<Rightarrow> bool
    \<Rightarrow> 'w global_data \<Rightarrow> int \<times> 'w global_data" where
  "lists_bind_drivers cfg info ext parent pre_reloc_only gd =
     bind_passes cfg info ext parent pre_reloc_only 10 0 gd"

text \<open>
  The return code and state after exactly \<open>n\<close> consecutive calls of
  \<^verbatim>\<open>bind_drivers_pass\<close> (for \<open>n = 0\<close>: no call, code 0). It is the yardstick
  against which the loop of \<^verbatim>\<open>lists_bind_drivers\<close> is measured.
\<close>

fun run_passes ::
  "config \<Rightarrow> driver_info list \<Rightarrow> 'w bind_by_name_fn \<Rightarrow> udevice_ptr option \<Rightarrow> bool
    \<Rightarrow> nat \<Rightarrow> 'w global_data \<Rightarrow> int \<times> 'w global_data" where
  "run_passes cfg info ext parent pre_reloc_only 0 gd = (0, gd)"
| "run_passes cfg info ext parent pre_reloc_only (Suc n) gd =
     (case bind_drivers_pass cfg info ext parent pre_reloc_only gd of
        (ret, gd') \<Rightarrow>
          if n = 0 then (ret, gd') else run_passes cfg info ext parent pre_reloc_only n gd')"

text \<open>
  The assignment \<^verbatim>\<open>if (!result || ret != -ENOENT) result = ret;\<close> under its guards
  \<^verbatim>\<open>ret != 0\<close> and \<^verbatim>\<open>ret != -EPERM\<close>, as a function of the old \<open>result\<close> and
  the new \<open>ret\<close>.
\<close>

definition record_error :: "int \<Rightarrow> int \<Rightarrow> int" where
  "record_error result ret =
     (if ret = 0 \<or> ret = - EPERM then result
      else if result = 0 \<or> ret \<noteq> - ENOENT then ret else result)"

text \<open>
  The failures of the bind calls made between two states, in call order: the return
  codes other than 0 and \<^verbatim>\<open>-EPERM\<close>.
\<close>

definition bind_errors :: "'w global_data \<Rightarrow> 'w global_data \<Rightarrow> int list" where
  "bind_errors gd gd' = filter (\<lambda>r. r \<noteq> 0 \<and> r \<noteq> - EPERM) (map call_ret (new_calls gd gd'))"

text \<open>A call of \<^verbatim>\<open>device_bind_by_name\<close> for the descriptor \<open>i\<close> that returned 0.\<close>

fun bound_for :: "nat \<Rightarrow> call \<Rightarrow> bool" where
  "bound_for i (Bind_by_name par pre idx ret) = (idx = i \<and> ret = 0)"
| "bound_for i (Bind_with_driver_data par k name data ret) = False"
| "bound_for i (Device_probe dev ret) = False"
| "bound_for i (Device_remove dev flags ret) = False"
| "bound_for i (Device_unbind dev ret) = False"

text \<open>
  Between the states \<open>gd\<close> and \<open>gd'\<close> the descriptor \<open>i\<close> was bound at most once, and
  its runtime slot tells: the table keeps its size; when no bind for \<open>i\<close> succeeded,
  the slot of \<open>i\<close> is what it was; when one did, it was the only one, the slot was empty
  before and records a device afterwards.
\<close>

definition bound_once :: "nat \<Rightarrow> 'w global_data \<Rightarrow> 'w global_data \<Rightarrow> bool" where
  "bound_once i gd gd' =
     (length (gd_dm_driver_rt gd') = length (gd_dm_driver_rt gd)
      \<and> (filter (bound_for i) (new_calls gd gd') = []
           \<longrightarrow> drt_dev (gd_dm_driver_rt gd') (int i) = drt_dev (gd_dm_driver_rt gd) (int i))
      \<and> (filter (bound_for i) (new_calls gd gd') \<noteq> []
           \<longrightarrow> drt_dev (gd_dm_driver_rt gd) (int i) = None
             \<and> length (filter (bound_for i) (new_calls gd gd')) = 1
             \<and> drt_dev (gd_dm_driver_rt gd') (int i) \<noteq> None))"

section \<open>lists.c: binding a devicetree node\<close>

text \<open>\<^verbatim>\<open>struct udevice_id\<close>: one entry of a driver's \<^verbatim>\<open>of_match\<close> table.\<close>

record udevice_id =
  id_compatible :: string
  id_data :: nat

text \<open>
  \<^verbatim>\<open>struct driver\<close>. \<open>of_match\<close> is \<open>None\<close> for a \<^verbatim>\<open>NULL\<close> table, otherwise
  the entries before the terminating entry (whose \<^verbatim>\<open>compatible\<close> is \<^verbatim>\<open>NULL\<close>).
\<close>

record driver =
  drv_name :: string
  of_match :: "udevice_id list option"
  drv_flags :: "32 word"

text \<open>
  What \<^verbatim>\<open>ofnode_get_property(node, "compatible", &compat_length)\<close> gives:
  \<open>Prop_found bytes\<close> is a non-null pointer to \<open>bytes\<close> with
  \<^verbatim>\<open>compat_length = length bytes\<close>; \<open>Prop_missing len\<close> is \<^verbatim>\<open>NULL\<close> with
  \<^verbatim>\<open>compat_length = len\<close>.
\<close>

datatype property = Prop_found "char list" | Prop_missing int

text \<open>
  A devicetree node, as the cursor functions \<^verbatim>\<open>ofnode_get_name\<close>,
  \<^verbatim>\<open>ofnode_get_property\<close>, \<^verbatim>\<open>ofnode_pre_reloc\<close>, \<^verbatim>\<open>ofnode_is_enabled\<close>,
  \<^verbatim>\<open>ofnode_first_subnode\<close> and \<^verbatim>\<open>ofnode_next_subnode\<close> show it. An
  \<^verbatim>\<open>ofnode\<close> for which \<^verbatim>\<open>ofnode_valid\<close> is false is \<open>None\<close>.
\<close>

datatype ofnode =
  Ofnode (ofnode_get_name: string) (ofnode_get_compatible: property) (ofnode_pre_reloc: bool)
    (ofnode_is_enabled: bool) (ofnode_subnodes: "ofnode list")

text \<open>The \<^verbatim>\<open>while (of_match->compatible)\<close> loop of \<^verbatim>\<open>driver_check_compatible\<close>.\<close>

fun of_match_loop ::
  "udevice_id list \<Rightarrow> udevice_id option \<Rightarrow> string \<Rightarrow> int \<times> udevice_id option" where
  "of_match_loop [] of_id cstr = (- ENOENT, of_id)"
| "of_match_loop (m # ms) of_id cstr =
     (if id_compatible m = cstr then (0, Some m) else of_match_loop ms of_id cstr)"

text \<open>
  \<^verbatim>\<open>driver_check_compatible(of_match, &id, compat)\<close>: the return value and the new
  value of \<^verbatim>\<open>id\<close> (written only on a match).
\<close>

definition driver_check_compatible ::
  "udevice_id list option \<Rightarrow> udevice_id option \<Rightarrow> string \<Rightarrow> int \<times> udevice_id option" where
  "driver_check_compatible tbl of_id cstr =
     (case tbl of None \<Rightarrow> (- ENOENT, of_id) | Some ms \<Rightarrow> of_match_loop ms of_id cstr)"

text \<open>
  The inner loop of \<^verbatim>\<open>lists_bind_fdt\<close> over the drivers, from the entry with index
  \<open>k\<close> on, with \<^verbatim>\<open>id = NULL\<close> on entry. \<open>drv\<close> is the index of the driver that
  \<^verbatim>\<open>drv\<close> points to. The result is \<open>None\<close> when the loop ends with
  \<^verbatim>\<open>entry == driver + n_ents\<close>, and otherwise the index of \<^verbatim>\<open>entry\<close>, the entry
  and \<^verbatim>\<open>id\<close> at the \<^verbatim>\<open>break\<close>.
\<close>

fun driver_scan ::
  "driver list \<Rightarrow> nat \<Rightarrow> nat option \<Rightarrow> string \<Rightarrow> (nat \<times> driver \<times> udevice_id option) option" where
  "driver_scan [] k drv cstr = None"
| "driver_scan (entry # rest) k drv cstr =
     (if drv \<noteq> None \<and> drv \<noteq> Some k then driver_scan rest (Suc k) drv cstr
      else if drv \<noteq> None \<and> of_match entry = None then Some (k, entry, None)
      else case driver_check_compatible (of_match entry) None cstr of
             (ret, of_id) \<Rightarrow>
               if ret = 0 then Some (k, entry, of_id)
               else driver_scan rest (Suc k) drv cstr)"

text \<open>
  The strings that \<^verbatim>\<open>for (i = 0; i < compat_length; i += strlen(compat) + 1)\<close>
  visits; \<open>bytes\<close> is the property from offset \<open>i\<close> on. Where the last string has no
  terminating NUL, \<^verbatim>\<open>strlen\<close> would read past the property; the model ends the
  string with the property.
\<close>

function compat_strings :: "char list \<Rightarrow> string list" where
  "compat_strings bytes =
     (if bytes = [] then []
      else takeWhile (\<lambda>c. c \<noteq> CHR 0x00) bytes
             # compat_strings (drop (Suc (length (takeWhile (\<lambda>c. c \<noteq> CHR 0x00) bytes))) bytes))"
  by pat_completeness auto
termination
  by (relation "measure length") auto

declare compat_strings.simps [simp del]

type_synonym 'w bind_fn =
  "udevice_ptr option \<Rightarrow> nat \<Rightarrow> string \<Rightarrow> nat \<Rightarrow> ofnode \<Rightarrow> 'w \<Rightarrow> int \<times> udevice_ptr \<times> 'w"

text \<open>
  The call \<^verbatim>\<open>device_bind_with_driver_data(parent, entry, name, data, node, &dev)\<close>
  with \<^verbatim>\<open>entry = driver + k\<close>.
\<close>

definition device_bind_with_driver_data ::
  "'w bind_fn \<Rightarrow> udevice_ptr option \<Rightarrow> nat \<Rightarrow> string \<Rightarrow> nat \<Rightarrow> ofnode \<Rightarrow> 'w global_data
    \<Rightarrow> int \<times> udevice_ptr \<times> 'w global_data" where
  "device_bind_with_driver_data ext parent k name data node gd =
     (case ext parent k name data node (world gd) of
        (ret, dev, w') \<Rightarrow>
          (ret, dev,
           gd\<lparr>world := w', calls := calls gd @ [Bind_with_driver_data parent k name data ret]\<rparr>))"

text \<open>
  How the loop over the compatible strings ends: it runs out of strings
  (\<open>No_match\<close>), returns 0 at the pre-relocation check (\<open>Skipped\<close>), returns a bind
  error, or leaves by \<^verbatim>\<open>break\<close> with \<^verbatim>\<open>found = true\<close> and the new device.
\<close>

datatype bind_exit = No_match | Skipped | Bind_error int | Bound udevice_ptr

text \<open>
  The loop of \<^verbatim>\<open>lists_bind_fdt\<close> over the compatible strings. \<open>pre_reloc_flag\<close> is the value
  of \<^verbatim>\<open>DM_FLAG_PRE_RELOC\<close>.
\<close>

fun compat_loop ::
  "32 word \<Rightarrow> driver list \<Rightarrow> 'w bind_fn \<Rightarrow> udevice_ptr option \<Rightarrow> ofnode \<Rightarrow> nat option \<Rightarrow> bool
    \<Rightarrow> string list \<Rightarrow> 'w global_data \<Rightarrow> bind_exit \<times> 'w global_data" where
  "compat_loop pre_reloc_flag drivers ext parent node drv pre_reloc_only [] gd = (No_match, gd)"
| "compat_loop pre_reloc_flag drivers ext parent node drv pre_reloc_only (cstr # rest) gd =
     (case driver_scan drivers 0 drv cstr of
        None \<Rightarrow> compat_loop pre_reloc_flag drivers ext parent node drv pre_reloc_only rest gd
      | Some (k, entry, of_id) \<Rightarrow>
          if pre_reloc_only \<and> \<not> ofnode_pre_reloc node \<and> drv_flags entry AND pre_reloc_flag = 0
          then (Skipped, gd)
          else
            case device_bind_with_driver_data ext parent k (ofnode_get_name node)
                   (case of_id of None \<Rightarrow> 0 | Some m \<Rightarrow> id_data m) node gd of
              (ret, dev, gd1) \<Rightarrow>
                if ret = - ENODEV
                then compat_loop pre_reloc_flag drivers ext parent node drv pre_reloc_only rest gd1
                else if ret \<noteq> 0 then (Bind_error ret, gd1)
                else (Bound dev, gd1))"

text \<open>
  \<^verbatim>\<open>lists_bind_fdt(parent, node, devp, drv, pre_reloc_only)\<close>. \<open>devp\<close> is \<open>None\<close>
  for a \<^verbatim>\<open>NULL\<close> pointer and \<open>Some v\<close> for a pointer to a variable that holds \<open>v\<close>;
  the result gives the return value, \<open>devp\<close> with the final content of that variable,
  and the state.
\<close>

definition lists_bind_fdt ::
  "32 word \<Rightarrow> driver list \<Rightarrow> 'w bind_fn \<Rightarrow> udevice_ptr option \<Rightarrow> ofnode
    \<Rightarrow> udevice_ptr option option \<Rightarrow> nat option \<Rightarrow> bool \<Rightarrow> 'w global_data
    \<Rightarrow> int \<times> udevice_ptr option option \<times> 'w global_data" where
  "lists_bind_fdt pre_reloc_flag drivers ext parent node devp drv pre_reloc_only gd =
     (let devp0 = map_option (\<lambda>v. None) devp
      in case ofnode_get_compatible node of
           Prop_missing compat_length \<Rightarrow>
             if compat_length = - FDT_ERR_NOTFOUND then (0, devp0, gd)
             else (compat_length, devp0, gd)
         | Prop_found compat_list \<Rightarrow>
             (case compat_loop pre_reloc_flag drivers ext parent node drv pre_reloc_only
                     (compat_strings compat_list) gd of
                (No_match, gd') \<Rightarrow> (0, devp0, gd')
              | (Skipped, gd') \<Rightarrow> (0, devp0, gd')
              | (Bind_error ret, gd') \<Rightarrow> (ret, devp0, gd')
              | (Bound dev, gd') \<Rightarrow> (0, map_option (\<lambda>v. Some dev) devp0, gd')))"

subsection \<open>Predicates for the statements about \<^verbatim>\<open>lists_bind_fdt\<close>\<close>

text \<open>
  The driver's \<^verbatim>\<open>of_match\<close> table contains the compatible string.
\<close>

definition of_match_has :: "driver \<Rightarrow> string \<Rightarrow> bool" where
  "of_match_has entry cstr =
     (case of_match entry of None \<Rightarrow> False
      | Some ms \<Rightarrow> cstr \<in> set (map id_compatible ms))"

text \<open>
  Driver \<open>j\<close> is the first driver in registry order whose \<^verbatim>\<open>of_match\<close> table contains
  the compatible string.
\<close>

definition first_match :: "driver list \<Rightarrow> string \<Rightarrow> nat \<Rightarrow> bool" where
  "first_match drivers cstr j =
     (j < length drivers \<and> of_match_has (drivers ! j) cstr
      \<and> (\<forall>i<j. \<not> of_match_has (drivers ! i) cstr))"

text \<open>
  The bind calls \<open>evs\<close> of one run of \<^verbatim>\<open>lists_bind_fdt\<close> follow the priority of the
  compatible strings \<open>cs\<close>: the last call succeeded for the first driver that matches
  some string \<open>cs ! k\<close>, and every string before \<open>cs ! k\<close> that some driver matches was
  tried with its first matching driver, which refused to bind (\<^verbatim>\<open>-ENODEV\<close>).
\<close>

definition chosen_by_priority ::
  "driver list \<Rightarrow> udevice_ptr option \<Rightarrow> string \<Rightarrow> string list \<Rightarrow> call list \<Rightarrow> bool" where
  "chosen_by_priority drivers parent name cs evs =
     (\<exists>k j data. k < length cs
        \<and> last evs = Bind_with_driver_data parent j name data 0
        \<and> first_match drivers (cs ! k) j
        \<and> (\<forall>k'<k. (\<exists>e\<in>set drivers. of_match_has e (cs ! k')) \<longrightarrow>
              (\<exists>j' data'. first_match drivers (cs ! k') j'
                 \<and> Bind_with_driver_data parent j' name data' (- ENODEV) \<in> set (butlast evs))))"

section \<open>root.c: scanning the devicetree\<close>

text \<open>
  The loop of \<^verbatim>\<open>dm_scan_fdt_node\<close> over the subnodes, from \<open>node\<close> on; \<open>ret\<close> is
  the first error so far.
\<close>

fun scan_subnodes ::
  "32 word \<Rightarrow> driver list \<Rightarrow> 'w bind_fn \<Rightarrow> udevice_ptr option \<Rightarrow> bool \<Rightarrow> ofnode list
    \<Rightarrow> int \<Rightarrow> 'w global_data \<Rightarrow> int \<times> 'w global_data" where
  "scan_subnodes pre_reloc_flag drivers ext parent pre_reloc_only [] ret gd = (ret, gd)"
| "scan_subnodes pre_reloc_flag drivers ext parent pre_reloc_only (node # rest) ret gd =
     (if \<not> ofnode_is_enabled node
      then scan_subnodes pre_reloc_flag drivers ext parent pre_reloc_only rest ret gd
      else
        case lists_bind_fdt pre_reloc_flag drivers ext parent node None None pre_reloc_only gd of
          (err, devp, gd') \<Rightarrow>
            scan_subnodes pre_reloc_flag drivers ext parent pre_reloc_only rest
              (if err \<noteq> 0 \<and> ret = 0 then err else ret) gd')"

definition dm_scan_fdt_node ::
  "32 word \<Rightarrow> driver list \<Rightarrow> 'w bind_fn \<Rightarrow> udevice_ptr option \<Rightarrow> ofnode option \<Rightarrow> bool
    \<Rightarrow> 'w global_data \<Rightarrow> int \<times> 'w global_data" where
  "dm_scan_fdt_node pre_reloc_flag drivers ext parent parent_node pre_reloc_only gd =
     (case parent_node of
        None \<Rightarrow> (0, gd)
      | Some pn \<Rightarrow>
          scan_subnodes pre_reloc_flag drivers ext parent pre_reloc_only (ofnode_subnodes pn) 0 gd)"

text \<open>
  The devicetree as \<^verbatim>\<open>ofnode_root()\<close> and \<^verbatim>\<open>ofnode_path(path)\<close> show it.
\<close>

record oftree =
  ofnode_root :: "ofnode option"
  ofnode_path :: "string \<Rightarrow> ofnode option"

definition dm_scan_fdt ::
  "32 word \<Rightarrow> driver list \<Rightarrow> 'w bind_fn \<Rightarrow> oftree \<Rightarrow> bool \<Rightarrow> 'w global_data
    \<Rightarrow> int \<times> 'w global_data" where
  "dm_scan_fdt pre_reloc_flag drivers ext tree pre_reloc_only gd =
     dm_scan_fdt_node pre_reloc_flag drivers ext (gd_dm_root gd) (ofnode_root tree)
       pre_reloc_only gd"

definition dm_scan_fdt_ofnode_path ::
  "32 word \<Rightarrow> driver list \<Rightarrow> 'w bind_fn \<Rightarrow> oftree \<Rightarrow> string \<Rightarrow> bool \<Rightarrow> 'w global_data
    \<Rightarrow> int \<times> 'w global_data" where
  "dm_scan_fdt_ofnode_path pre_reloc_flag drivers ext tree path pre_reloc_only gd =
     dm_scan_fdt_node pre_reloc_flag drivers ext (gd_dm_root gd) (ofnode_path tree path)
       pre_reloc_only gd"

text \<open>
  The loop of \<^verbatim>\<open>dm_extended_scan\<close> over \<^verbatim>\<open>nodes[]\<close>, from the path at the head of
  the list on; \<open>ret\<close> is the variable \<^verbatim>\<open>ret\<close> on entry.
\<close>

fun scan_paths ::
  "32 word \<Rightarrow> driver list \<Rightarrow> 'w bind_fn \<Rightarrow> oftree \<Rightarrow> bool \<Rightarrow> string list \<Rightarrow> int
    \<Rightarrow> 'w global_data \<Rightarrow> int \<times> 'w global_data" where
  "scan_paths pre_reloc_flag drivers ext tree pre_reloc_only [] ret gd = (ret, gd)"
| "scan_paths pre_reloc_flag drivers ext tree pre_reloc_only (path # rest) ret gd =
     (case dm_scan_fdt_ofnode_path pre_reloc_flag drivers ext tree path pre_reloc_only gd of
        (ret', gd') \<Rightarrow>
          if ret' \<noteq> 0 then (ret', gd')
          else scan_paths pre_reloc_flag drivers ext tree pre_reloc_only rest ret' gd')"

definition nodes :: "string list" where
  "nodes = [''/chosen'', ''/clocks'', ''/firmware'']"

definition dm_extended_scan ::
  "32 word \<Rightarrow> driver list \<Rightarrow> 'w bind_fn \<Rightarrow> oftree \<Rightarrow> bool \<Rightarrow> 'w global_data
    \<Rightarrow> int \<times> 'w global_data" where
  "dm_extended_scan pre_reloc_flag drivers ext tree pre_reloc_only gd =
     (case dm_scan_fdt pre_reloc_flag drivers ext tree pre_reloc_only gd of
        (ret, gd') \<Rightarrow>
          if ret \<noteq> 0 then (ret, gd')
          else scan_paths pre_reloc_flag drivers ext tree pre_reloc_only nodes ret gd')"

section \<open>root.c: probing the bound devices\<close>







section \<open>root.c: tearing down\<close>

type_synonym 'w remove_fn = "udevice_ptr option \<Rightarrow> remove_flags \<Rightarrow> 'w \<Rightarrow> int \<times> 'w"

type_synonym 'w unbind_fn = "udevice_ptr option \<Rightarrow> 'w \<Rightarrow> int \<times> 'w"

definition dm_root :: "'w global_data \<Rightarrow> udevice_ptr option" where
  "dm_root gd = (if gd_dm_root gd = None then None else gd_dm_root gd)"

definition device_remove ::
  "'w remove_fn \<Rightarrow> udevice_ptr option \<Rightarrow> remove_flags \<Rightarrow> 'w global_data
    \<Rightarrow> int \<times> 'w global_data" where
  "device_remove ext dev flags gd =
     (case ext dev flags (world gd) of
        (ret, w') \<Rightarrow> (ret, gd\<lparr>world := w', calls := calls gd @ [Device_remove dev flags ret]\<rparr>))"

definition device_unbind ::
  "'w unbind_fn \<Rightarrow> udevice_ptr option \<Rightarrow> 'w global_data \<Rightarrow> int \<times> 'w global_data" where
  "device_unbind ext dev gd =
     (case ext dev (world gd) of
        (ret, w') \<Rightarrow> (ret, gd\<lparr>world := w', calls := calls gd @ [Device_unbind dev ret]\<rparr>))"

text \<open>\<^verbatim>\<open>dm_uninit()\<close>: the three return values are dropped, as in the source.\<close>

definition dm_uninit ::
  "'w remove_fn \<Rightarrow> 'w unbind_fn \<Rightarrow> 'w global_data \<Rightarrow> int \<times> 'w global_data" where
  "dm_uninit ext_remove ext_unbind gd =
     (let gd1 = snd (device_remove ext_remove (dm_root gd) DM_REMOVE_NON_VITAL gd);
          gd2 = snd (device_remove ext_remove (dm_root gd1) DM_REMOVE_NORMAL gd1);
          gd3 = snd (device_unbind ext_unbind (dm_root gd2) gd2)
      in (0, gd3\<lparr>gd_dm_root := None\<rparr>))"

section \<open>Concrete inputs\<close>

text \<open>
  Small configurations on which the theorems below are exercised. Devices are numbered
  from 100; the root device is 10.
\<close>

definition ex_cfg :: config where
  "ex_cfg = \<lparr>OF_PLATDATA = True, OF_PLATDATA_PARENT = True\<rparr>"

definition ex_cfg_off :: config where
  "ex_cfg_off = \<lparr>OF_PLATDATA = False, OF_PLATDATA_PARENT = False\<rparr>"

definition ex_gd :: "udevice_ptr option list \<Rightarrow> unit global_data" where
  "ex_gd drt = \<lparr>gd_dm_root = Some 10, gd_dm_driver_rt = drt, world = (), calls = []\<rparr>"

text \<open>Two descriptors without parents, and a binder that fails on both.\<close>

definition ex_info2 :: "driver_info list" where
  "ex_info2 = [\<lparr>info_name = ''serial'', parent_idx = - 1\<rparr>,
               \<lparr>info_name = ''clock'', parent_idx = - 1\<rparr>]"

definition ex_bind_fails :: "unit bind_by_name_fn" where
  "ex_bind_fails par pre_reloc_only idx w = (if idx = 0 then - 22 else - 12, 0, w)"

text \<open>
  Three descriptors: the first has no driver (\<^verbatim>\<open>-ENOENT\<close>), the second fails with
  -22, the third is not permitted (\<^verbatim>\<open>-EPERM\<close>).
\<close>

definition ex_info3 :: "driver_info list" where
  "ex_info3 = [\<lparr>info_name = ''nodrv'', parent_idx = - 1\<rparr>,
               \<lparr>info_name = ''serial'', parent_idx = - 1\<rparr>,
               \<lparr>info_name = ''clock'', parent_idx = - 1\<rparr>]"

definition ex_bind_mixed :: "unit bind_by_name_fn" where
  "ex_bind_mixed par pre_reloc_only idx w =
     (if idx = 0 then - ENOENT else if idx = 1 then - 22 else - EPERM, 0, w)"

text \<open>Two descriptors that name each other as parent.\<close>

definition ex_info_cycle :: "driver_info list" where
  "ex_info_cycle = [\<lparr>info_name = ''a'', parent_idx = 1\<rparr>,
                    \<lparr>info_name = ''b'', parent_idx = 0\<rparr>]"

text \<open>A binder that binds descriptor \<open>idx\<close> as device \<open>100 + idx\<close>.\<close>

definition ex_bind_ok :: "unit bind_by_name_fn" where
  "ex_bind_ok par pre_reloc_only idx w = (0, 100 + idx, w)"

text \<open>
  A binder for drivers without the pre-relocation flag: \<^verbatim>\<open>-EPERM\<close> before
  relocation, success after it.
\<close>

definition ex_bind_reloc :: "unit bind_by_name_fn" where
  "ex_bind_reloc par pre_reloc_only idx w =
     (if pre_reloc_only then (- EPERM, 0, w) else (0, 100 + idx, w))"

definition ex_info1 :: "driver_info list" where
  "ex_info1 = [\<lparr>info_name = ''serial'', parent_idx = - 1\<rparr>]"

text \<open>
  Two drivers: driver 0 matches \<^verbatim>\<open>generic,foo\<close>, driver 1 matches \<^verbatim>\<open>acme,foo-v2\<close>;
  neither has \<^verbatim>\<open>DM_FLAG_PRE_RELOC\<close>, whose value is taken as 4 in the examples.
\<close>

definition ex_drv_generic :: driver where
  "ex_drv_generic = \<lparr>drv_name = ''generic_foo'',
     of_match = Some [\<lparr>id_compatible = ''generic,foo'', id_data = 11\<rparr>], drv_flags = 0\<rparr>"

definition ex_drv_acme :: driver where
  "ex_drv_acme = \<lparr>drv_name = ''acme_foo'',
     of_match = Some [\<lparr>id_compatible = ''acme,foo-v2'', id_data = 22\<rparr>], drv_flags = 0\<rparr>"

definition ex_drivers :: "driver list" where
  "ex_drivers = [ex_drv_generic, ex_drv_acme]"

text \<open>The same two drivers, the second with \<^verbatim>\<open>DM_FLAG_PRE_RELOC\<close>.\<close>

definition ex_drivers_pre :: "driver list" where
  "ex_drivers_pre = [ex_drv_generic, ex_drv_acme\<lparr>drv_flags := 4\<rparr>]"

text \<open>A driver without an \<^verbatim>\<open>of_match\<close> table, as driver 1.\<close>

definition ex_drv_plain :: driver where
  "ex_drv_plain = \<lparr>drv_name = ''plain'', of_match = None, drv_flags = 0\<rparr>"

definition ex_drivers_plain :: "driver list" where
  "ex_drivers_plain = [ex_drv_generic, ex_drv_plain]"

text \<open>
  A node with \<^verbatim>\<open>compatible = "acme,foo-v2", "generic,foo"\<close>, a node whose only
  compatible string no driver has, and a node without the property.
\<close>

definition ex_node :: ofnode where
  "ex_node = Ofnode ''foo@0''
     (Prop_found (''acme,foo-v2'' @ [CHR 0x00] @ ''generic,foo'' @ [CHR 0x00])) False True []"

definition ex_node_other :: ofnode where
  "ex_node_other = Ofnode ''bar@1'' (Prop_found (''vendor,bar'' @ [CHR 0x00])) False True []"

definition ex_node_bare :: ofnode where
  "ex_node_bare = Ofnode ''baz'' (Prop_missing (- 1)) False True []"

text \<open>
  Binders for devicetree nodes: one binds driver \<open>k\<close> as device \<open>100 + k\<close>; with the
  other, driver 1 refuses to bind (\<^verbatim>\<open>-ENODEV\<close>).
\<close>

definition ex_bind_node :: "unit bind_fn" where
  "ex_bind_node parent k name data node w = (0, 100 + k, w)"

definition ex_bind_refuse :: "unit bind_fn" where
  "ex_bind_refuse parent k name data node w =
     (if k = 1 then (- ENODEV, 0, w) else (0, 100 + k, w))"




text \<open>
  Devicetrees for the extended scan. In the first, the root level has a node whose
  \<^verbatim>\<open>compatible\<close> property cannot be read (error -11) and \<^verbatim>\<open>/chosen\<close> holds a node
  that driver 1 matches. In the second, the root level binds nothing, \<^verbatim>\<open>/chosen\<close>
  holds the unreadable node and \<^verbatim>\<open>/firmware\<close> the node that driver 1 matches.
\<close>

definition ex_node_bad :: ofnode where
  "ex_node_bad = Ofnode ''bad'' (Prop_missing (- 11)) False True []"

definition ex_tree :: oftree where
  "ex_tree = \<lparr>ofnode_root = Some (Ofnode [] (Prop_missing (- 1)) False True [ex_node_bad]),
     ofnode_path = (\<lambda>path. if path = ''/chosen''
        then Some (Ofnode ''chosen'' (Prop_missing (- 1)) False True [ex_node]) else None)\<rparr>"

definition ex_tree2 :: oftree where
  "ex_tree2 = \<lparr>ofnode_root = Some (Ofnode [] (Prop_missing (- 1)) False True [ex_node_other]),
     ofnode_path = (\<lambda>path.
        if path = ''/chosen''
        then Some (Ofnode ''chosen'' (Prop_missing (- 1)) False True [ex_node_bad])
        else if path = ''/firmware''
        then Some (Ofnode ''firmware'' (Prop_missing (- 1)) False True [ex_node])
        else None)\<rparr>"

text \<open>Functions for \<^verbatim>\<open>device_remove\<close> and \<^verbatim>\<open>device_unbind\<close> that fail on \<^verbatim>\<open>NULL\<close>.\<close>

definition ex_remove :: "unit remove_fn" where
  "ex_remove dev flags w = (if dev = None then - 22 else 0, w)"

definition ex_unbind :: "unit unbind_fn" where
  "ex_unbind dev w = (if dev = None then - 22 else 0, w)"

section \<open>Properties of the static-descriptor scanner\<close>

subsection \<open>The calls and the recorded error of one pass\<close>

lemma bind_drivers_step_calls:
  assumes "bind_drivers_step cfg ext parent pre idx entry (m, res, gd) = (m', res', gd')"
  shows "\<exists>evs. calls gd' = calls gd @ evs \<and> res' = foldl record_error res (map call_ret evs)"
  using assms
  by (auto simp: bind_drivers_step_def device_bind_by_name_def record_error_def Let_def
      split: if_splits prod.splits)

lemma bind_drivers_loop_calls:
  "bind_drivers_loop cfg ext parent pre idx entries (m, res, gd) = (m', res', gd') \<Longrightarrow>
   \<exists>evs. calls gd' = calls gd @ evs \<and> res' = foldl record_error res (map call_ret evs)"
proof (induction entries arbitrary: idx m res gd)
  case Nil
  then show ?case by simp
next
  case (Cons e es)
  obtain m1 r1 g1 where st: "bind_drivers_step cfg ext parent pre idx e (m, res, gd) = (m1, r1, g1)"
    by (cases "bind_drivers_step cfg ext parent pre idx e (m, res, gd)") auto
  from bind_drivers_step_calls[OF st] obtain evs1 where
    e1: "calls g1 = calls gd @ evs1" "r1 = foldl record_error res (map call_ret evs1)" by blast
  from Cons.prems st
  have "bind_drivers_loop cfg ext parent pre (Suc idx) es (m1, r1, g1) = (m', res', gd')"
    by simp
  from Cons.IH[OF this] obtain evs2 where
    e2: "calls gd' = calls g1 @ evs2" "res' = foldl record_error r1 (map call_ret evs2)" by blast
  show ?case using e1 e2 by (intro exI[of _ "evs1 @ evs2"]) simp
qed

lemma record_error_fold:
  fixes rets :: "int list"
  defines "errs \<equiv> filter (\<lambda>r. r \<noteq> 0 \<and> r \<noteq> - EPERM) rets"
  defines "others \<equiv> filter (\<lambda>r. r \<noteq> - ENOENT) errs"
  shows "(others \<noteq> [] \<longrightarrow> foldl record_error 0 rets = last others)
       \<and> (others = [] \<and> errs \<noteq> [] \<longrightarrow> foldl record_error 0 rets = - ENOENT)
       \<and> (errs = [] \<longrightarrow> foldl record_error 0 rets = 0)"
  unfolding errs_def others_def
proof (induction rets rule: rev_induct)
  case Nil
  then show ?case by simp
next
  case (snoc x xs)
  define e where "e = filter (\<lambda>r. r \<noteq> 0 \<and> r \<noteq> - EPERM) xs"
  define ot where "ot = filter (\<lambda>r. r \<noteq> - ENOENT) e"
  define R where "R = foldl record_error 0 xs"
  have IH: "ot \<noteq> [] \<longrightarrow> R = last ot" "ot = [] \<and> e \<noteq> [] \<longrightarrow> R = - ENOENT" "e = [] \<longrightarrow> R = 0"
    using snoc unfolding e_def ot_def R_def by blast+
  have nz: "ot \<noteq> [] \<Longrightarrow> last ot \<noteq> 0"
  proof -
    assume "ot \<noteq> []"
    then have "last ot \<in> set ot" by (rule last_in_set)
    then show "last ot \<noteq> 0" unfolding ot_def e_def by simp
  qed
  have en: "ENOENT \<noteq> 0" by (simp add: ENOENT_def)
  have R': "foldl record_error 0 (xs @ [x]) = record_error R x" by (simp add: R_def)
  consider (skip) "x = 0 \<or> x = - EPERM"
    | (noent) "x \<noteq> 0" "x \<noteq> - EPERM" "x = - ENOENT"
    | (other) "x \<noteq> 0" "x \<noteq> - EPERM" "x \<noteq> - ENOENT" by blast
  then have "(filter (\<lambda>r. r \<noteq> - ENOENT) (filter (\<lambda>r. r \<noteq> 0 \<and> r \<noteq> - EPERM) (xs @ [x])) \<noteq> []
        \<longrightarrow> record_error R x = last (filter (\<lambda>r. r \<noteq> - ENOENT) (filter (\<lambda>r. r \<noteq> 0 \<and> r \<noteq> - EPERM) (xs @ [x]))))
     \<and> (filter (\<lambda>r. r \<noteq> - ENOENT) (filter (\<lambda>r. r \<noteq> 0 \<and> r \<noteq> - EPERM) (xs @ [x])) = []
          \<and> filter (\<lambda>r. r \<noteq> 0 \<and> r \<noteq> - EPERM) (xs @ [x]) \<noteq> [] \<longrightarrow> record_error R x = - ENOENT)
     \<and> (filter (\<lambda>r. r \<noteq> 0 \<and> r \<noteq> - EPERM) (xs @ [x]) = [] \<longrightarrow> record_error R x = 0)"
  proof cases
    case skip
    then have f: "filter (\<lambda>r. r \<noteq> 0 \<and> r \<noteq> - EPERM) (xs @ [x]) = e"
      by (auto simp: e_def)
    have r: "record_error R x = R" using skip by (auto simp: record_error_def)
    show ?thesis unfolding f r using IH unfolding ot_def by blast
  next
    case noent
    then have f: "filter (\<lambda>r. r \<noteq> 0 \<and> r \<noteq> - EPERM) (xs @ [x]) = e @ [x]"
      by (simp add: e_def)
    have g: "filter (\<lambda>r. r \<noteq> - ENOENT) (e @ [x]) = ot" using noent by (simp add: ot_def)
    have r: "record_error R x = (if R = 0 then - ENOENT else R)"
      using noent by (simp add: record_error_def)
    have a: "ot \<noteq> [] \<Longrightarrow> (if R = 0 then - ENOENT else R) = last ot"
    proof -
      assume o: "ot \<noteq> []"
      then have "R = last ot" using IH(1) by blast
      moreover have "last ot \<noteq> 0" using o by (rule nz)
      ultimately show ?thesis by simp
    qed
    have b: "ot = [] \<Longrightarrow> (if R = 0 then - ENOENT else R) = - ENOENT"
    proof (cases "e = []")
      case True
      then have "R = 0" using IH(3) by blast
      then show ?thesis by simp
    next
      case False
      assume "ot = []"
      then have "R = - ENOENT" using False IH(2) by blast
      then show ?thesis by simp
    qed
    have c: "e @ [x] \<noteq> []" by simp
    show ?thesis unfolding f g r using a b c by blast
  next
    case other
    then have f: "filter (\<lambda>r. r \<noteq> 0 \<and> r \<noteq> - EPERM) (xs @ [x]) = e @ [x]"
      by (simp add: e_def)
    have g: "filter (\<lambda>r. r \<noteq> - ENOENT) (e @ [x]) = ot @ [x]" using other by (simp add: ot_def)
    have r: "record_error R x = x"
      using other by (simp add: record_error_def)
    show ?thesis unfolding f g r by simp
  qed
  then show ?case unfolding R' .
qed

text \<open>
  C4 (as amended). The error that one pass of \<^verbatim>\<open>bind_drivers_pass\<close> returns is
  decided by the bind calls of that pass that failed with a code other than
  \<^verbatim>\<open>-EPERM\<close>: when some of them failed with a code other than \<^verbatim>\<open>-ENOENT\<close>, the pass
  returns the last such code (a later error of that kind replaces an earlier one);
  when all of them failed with \<^verbatim>\<open>-ENOENT\<close>, it returns \<^verbatim>\<open>-ENOENT\<close>; when none
  failed, it returns 0 or \<^verbatim>\<open>-EAGAIN\<close>.
\<close>

theorem bind_drivers_pass_error:
  assumes "bind_drivers_pass cfg info ext parent pre gd = (r, gd')"
  shows "(filter (\<lambda>e. e \<noteq> - ENOENT) (bind_errors gd gd') \<noteq> []
            \<longrightarrow> r = last (filter (\<lambda>e. e \<noteq> - ENOENT) (bind_errors gd gd')))
       \<and> (filter (\<lambda>e. e \<noteq> - ENOENT) (bind_errors gd gd') = [] \<and> bind_errors gd gd' \<noteq> []
            \<longrightarrow> r = - ENOENT)
       \<and> (bind_errors gd gd' = [] \<longrightarrow> r = 0 \<or> r = - EAGAIN)"
proof -
  obtain m' res' where l:
    "bind_drivers_loop cfg ext parent pre 0 info (False, 0, gd) = (m', res', gd')"
    and r: "r = (if res' \<noteq> 0 then res' else if m' then - EAGAIN else 0)"
    using assms by (auto simp: bind_drivers_pass_def split: prod.splits)
  from bind_drivers_loop_calls[OF l] obtain evs where
    evs: "calls gd' = calls gd @ evs" "res' = foldl record_error 0 (map call_ret evs)" by blast
  have be: "bind_errors gd gd' = filter (\<lambda>r. r \<noteq> 0 \<and> r \<noteq> - EPERM) (map call_ret evs)"
    using evs(1) by (simp add: bind_errors_def new_calls_def)
  let ?others = "filter (\<lambda>e. e \<noteq> - ENOENT) (bind_errors gd gd')"
  have nz: "?others \<noteq> [] \<Longrightarrow> last ?others \<noteq> 0"
  proof -
    assume "?others \<noteq> []"
    then have "last ?others \<in> set ?others" by (rule last_in_set)
    then show "last ?others \<noteq> 0" by (auto simp: bind_errors_def)
  qed
  have en: "ENOENT \<noteq> 0" by (simp add: ENOENT_def)
  from record_error_fold[of "map call_ret evs"] be evs(2)
  have f: "(?others \<noteq> [] \<longrightarrow> res' = last ?others)"
    "(?others = [] \<and> bind_errors gd gd' \<noteq> [] \<longrightarrow> res' = - ENOENT)"
    "(bind_errors gd gd' = [] \<longrightarrow> res' = 0)"
    by simp_all
  have a: "?others \<noteq> [] \<Longrightarrow> r = last ?others"
  proof -
    assume o: "?others \<noteq> []"
    then have "res' = last ?others" using f(1) by blast
    moreover have "last ?others \<noteq> 0" using o by (rule nz)
    ultimately show ?thesis using r by simp
  qed
  have b: "?others = [] \<and> bind_errors gd gd' \<noteq> [] \<Longrightarrow> r = - ENOENT"
  proof -
    assume "?others = [] \<and> bind_errors gd gd' \<noteq> []"
    then have "res' = - ENOENT" using f(2) by blast
    then show ?thesis using r en by simp
  qed
  have c: "bind_errors gd gd' = [] \<Longrightarrow> r = 0 \<or> r = - EAGAIN"
  proof -
    assume "bind_errors gd gd' = []"
    then have "res' = 0" using f(3) by blast
    then show ?thesis using r by simp
  qed
  show ?thesis using a b c by blast
qed

theorem bind_drivers_pass_error_witness:
  "bind_drivers_pass ex_cfg ex_info3 ex_bind_mixed (Some 10) False (ex_gd [None, None, None])
     = (- 22, (ex_gd [None, None, None])
          \<lparr>calls := [Bind_by_name (Some 10) False 0 (- 2), Bind_by_name (Some 10) False 1 (- 22),
                     Bind_by_name (Some 10) False 2 (- 1)]\<rparr>)
   \<and> bind_errors (ex_gd [None, None, None])
        ((ex_gd [None, None, None])
          \<lparr>calls := [Bind_by_name (Some 10) False 0 (- 2), Bind_by_name (Some 10) False 1 (- 22),
                     Bind_by_name (Some 10) False 2 (- 1)]\<rparr>) = [- 2, - 22]
   \<and> (- 22 :: int) = last (filter (\<lambda>e. e \<noteq> - ENOENT) [- 2, - 22])"
proof -
  let ?gd = "ex_gd [None, None, None]"
  let ?gd' = "?gd\<lparr>calls := [Bind_by_name (Some 10) False 0 (- 2),
                Bind_by_name (Some 10) False 1 (- 22), Bind_by_name (Some 10) False 2 (- 1)]\<rparr>"
  have run: "bind_drivers_pass ex_cfg ex_info3 ex_bind_mixed (Some 10) False ?gd = (- 22, ?gd')"
    by (simp add: bind_drivers_pass_def bind_drivers_step_def device_bind_by_name_def
        drt_dev_def ex_cfg_def ex_info3_def ex_bind_mixed_def ex_gd_def EPERM_def ENOENT_def
        EAGAIN_def)
  have be: "bind_errors ?gd ?gd' = [- 2, - 22]"
    by (simp add: bind_errors_def new_calls_def ex_gd_def EPERM_def)
  have ne: "filter (\<lambda>e. e \<noteq> - ENOENT) [- 2, - 22 :: int] \<noteq> []"
    by (simp add: ENOENT_def)
  have "filter (\<lambda>e. e \<noteq> - ENOENT) (bind_errors ?gd ?gd') \<noteq> []
          \<longrightarrow> (- 22 :: int) = last (filter (\<lambda>e. e \<noteq> - ENOENT) (bind_errors ?gd ?gd'))"
    using bind_drivers_pass_error[OF run] by (rule conjunct1)
  then have c: "(- 22 :: int) = last (filter (\<lambda>e. e \<noteq> - ENOENT) [- 2, - 22])"
    unfolding be using ne by (rule mp)
  show ?thesis
    by (intro conjI) (rule run, rule be, rule c)
qed

text \<open>
  C4, the claim as stated fails: the first descriptor fails with -22 and the second
  with -12, neither of them \<^verbatim>\<open>-ENOENT\<close>; the pass returns -12, the later error.
\<close>

theorem bind_drivers_pass_first_error_counterexample:
  "bind_drivers_pass ex_cfg ex_info2 ex_bind_fails (Some 10) False (ex_gd [None, None])
     = (- 12, (ex_gd [None, None])
          \<lparr>calls := [Bind_by_name (Some 10) False 0 (- 22),
                     Bind_by_name (Some 10) False 1 (- 12)]\<rparr>)"
  by (simp add: bind_drivers_pass_def bind_drivers_step_def device_bind_by_name_def
      drt_dev_def ex_cfg_def ex_info2_def ex_bind_fails_def ex_gd_def EPERM_def ENOENT_def
      EAGAIN_def)

subsection \<open>The pass loop of \<^verbatim>\<open>lists_bind_drivers\<close>\<close>

lemma bind_passes_run:
  assumes "result = 0 \<or> result = - EAGAIN"
  shows "\<exists>n. 1 \<le> n \<and> n \<le> Suc m
           \<and> bind_passes cfg info ext parent pre (Suc m) result gd
               = run_passes cfg info ext parent pre n gd
           \<and> (\<forall>k. 1 \<le> k \<and> k < n \<longrightarrow> fst (run_passes cfg info ext parent pre k gd) = - EAGAIN)
           \<and> (n < Suc m \<longrightarrow> fst (run_passes cfg info ext parent pre n gd) \<noteq> - EAGAIN)"
  using assms
proof (induction m arbitrary: result gd)
  case 0
  show ?case using 0
    by (intro exI[of _ 1]) (auto split: prod.splits)
next
  case (Suc m)
  obtain ret gd1 where p: "bind_drivers_pass cfg info ext parent pre gd = (ret, gd1)"
    by (cases "bind_drivers_pass cfg info ext parent pre gd") auto
  show ?case
  proof (cases "ret = - EAGAIN")
    case False
    then show ?thesis using p Suc.prems
      by (intro exI[of _ 1]) (auto split: prod.splits)
  next
    case True
    have "- EAGAIN = 0 \<or> - EAGAIN = - EAGAIN" by simp
    from Suc.IH[OF this, of gd1] obtain n where n:
      "1 \<le> n" "n \<le> Suc m"
      "bind_passes cfg info ext parent pre (Suc m) (- EAGAIN) gd1
         = run_passes cfg info ext parent pre n gd1"
      "\<forall>k. 1 \<le> k \<and> k < n \<longrightarrow> fst (run_passes cfg info ext parent pre k gd1) = - EAGAIN"
      "n < Suc m \<longrightarrow> fst (run_passes cfg info ext parent pre n gd1) \<noteq> - EAGAIN"
      by blast
    have step: "\<And>k. 1 \<le> k \<Longrightarrow>
        run_passes cfg info ext parent pre (Suc k) gd = run_passes cfg info ext parent pre k gd1"
      using p by simp
    have one: "run_passes cfg info ext parent pre (Suc 0) gd = (ret, gd1)"
      using p by simp
    have a: "bind_passes cfg info ext parent pre (Suc (Suc m)) result gd
               = run_passes cfg info ext parent pre (Suc n) gd"
      using p True Suc.prems n(1,3) step[of n] by (auto simp: Let_def)
    have b: "\<forall>k. 1 \<le> k \<and> k < Suc n
               \<longrightarrow> fst (run_passes cfg info ext parent pre k gd) = - EAGAIN"
    proof (intro allI impI)
      fix k assume k: "1 \<le> k \<and> k < Suc n"
      show "fst (run_passes cfg info ext parent pre k gd) = - EAGAIN"
      proof (cases "k = 1")
        case True
        then show ?thesis using one \<open>ret = - EAGAIN\<close> by simp
      next
        case False
        then obtain k' where k': "k = Suc k'" "1 \<le> k'" using k by (cases k) auto
        then show ?thesis using step[of k'] n(4) k by simp
      qed
    qed
    have c: "Suc n < Suc (Suc m)
               \<longrightarrow> fst (run_passes cfg info ext parent pre (Suc n) gd) \<noteq> - EAGAIN"
      using n(5) n(1) step[of n] by simp
    show ?thesis using n(1,2) a b c
      by (intro exI[of _ "Suc n"]) simp
  qed
qed

lemma lists_bind_drivers_one_pass:
  assumes "bind_drivers_pass cfg info ext parent pre gd = (ret, gd')" "ret \<noteq> - EAGAIN"
  shows "lists_bind_drivers cfg info ext parent pre gd = (ret, gd')"
  using assms by (simp add: lists_bind_drivers_def eval_nat_numeral)

text \<open>
  C5. \<^verbatim>\<open>lists_bind_drivers\<close> runs \<open>n\<close> passes for some \<open>n\<close> between 1 and 10: its
  result is that of \<open>n\<close> consecutive calls of \<^verbatim>\<open>bind_drivers_pass\<close>. Every pass
  before the last returned \<^verbatim>\<open>-EAGAIN\<close>, and it stops before the tenth pass only at
  a pass that returned something else. When all ten passes return \<^verbatim>\<open>-EAGAIN\<close>, it
  returns \<^verbatim>\<open>-EAGAIN\<close>, which is not 0.
\<close>

theorem lists_bind_drivers_passes:
  "(\<exists>n. 1 \<le> n \<and> n \<le> 10
      \<and> lists_bind_drivers cfg info ext parent pre gd = run_passes cfg info ext parent pre n gd
      \<and> (\<forall>k. 1 \<le> k \<and> k < n \<longrightarrow> fst (run_passes cfg info ext parent pre k gd) = - EAGAIN)
      \<and> (n < 10 \<longrightarrow> fst (run_passes cfg info ext parent pre n gd) \<noteq> - EAGAIN))
   \<and> ((\<forall>k. 1 \<le> k \<and> k \<le> 10 \<longrightarrow> fst (run_passes cfg info ext parent pre k gd) = - EAGAIN)
        \<longrightarrow> fst (lists_bind_drivers cfg info ext parent pre gd) = - EAGAIN
          \<and> fst (lists_bind_drivers cfg info ext parent pre gd) \<noteq> 0)"
proof -
  have z: "(0::int) = 0 \<or> (0::int) = - EAGAIN" by simp
  have ten: "(10::nat) = Suc 9" by simp
  from bind_passes_run[OF z, of 9 cfg info ext parent pre gd] obtain n where n:
    "1 \<le> n" "n \<le> 10"
    "lists_bind_drivers cfg info ext parent pre gd = run_passes cfg info ext parent pre n gd"
    "\<forall>k. 1 \<le> k \<and> k < n \<longrightarrow> fst (run_passes cfg info ext parent pre k gd) = - EAGAIN"
    "n < 10 \<longrightarrow> fst (run_passes cfg info ext parent pre n gd) \<noteq> - EAGAIN"
    unfolding lists_bind_drivers_def ten by auto
  have first: "\<exists>n. 1 \<le> n \<and> n \<le> 10
      \<and> lists_bind_drivers cfg info ext parent pre gd = run_passes cfg info ext parent pre n gd
      \<and> (\<forall>k. 1 \<le> k \<and> k < n \<longrightarrow> fst (run_passes cfg info ext parent pre k gd) = - EAGAIN)
      \<and> (n < 10 \<longrightarrow> fst (run_passes cfg info ext parent pre n gd) \<noteq> - EAGAIN)"
    using n by blast
  have second: "fst (lists_bind_drivers cfg info ext parent pre gd) = - EAGAIN
          \<and> fst (lists_bind_drivers cfg info ext parent pre gd) \<noteq> 0"
    if all: "\<forall>k. 1 \<le> k \<and> k \<le> 10 \<longrightarrow> fst (run_passes cfg info ext parent pre k gd) = - EAGAIN"
  proof -
    have "fst (run_passes cfg info ext parent pre n gd) = - EAGAIN" using all n(1,2) by blast
    then have "fst (lists_bind_drivers cfg info ext parent pre gd) = - EAGAIN" using n(3) by simp
    then show ?thesis by (simp add: EAGAIN_def)
  qed
  show ?thesis using first second by blast
qed

theorem lists_bind_drivers_passes_witness:
  "fst (run_passes ex_cfg ex_info_cycle ex_bind_ok (Some 10) False 10 (ex_gd [None, None]))
       = - EAGAIN
   \<and> fst (lists_bind_drivers ex_cfg ex_info_cycle ex_bind_ok (Some 10) False (ex_gd [None, None]))
       = - EAGAIN
   \<and> fst (lists_bind_drivers ex_cfg ex_info_cycle ex_bind_ok (Some 10) False (ex_gd [None, None]))
       \<noteq> 0"
proof -
  let ?gd = "ex_gd [None, None]"
  have p: "bind_drivers_pass ex_cfg ex_info_cycle ex_bind_ok (Some 10) False ?gd = (- EAGAIN, ?gd)"
    by (simp add: bind_drivers_pass_def bind_drivers_step_def drt_dev_def ex_cfg_def
        ex_info_cycle_def ex_gd_def)
  have rp: "run_passes ex_cfg ex_info_cycle ex_bind_ok (Some 10) False (Suc k) ?gd = (- EAGAIN, ?gd)"
    for k
    by (induction k) (simp_all add: p)
  have all: "\<forall>k. 1 \<le> k \<and> k \<le> 10
      \<longrightarrow> fst (run_passes ex_cfg ex_info_cycle ex_bind_ok (Some 10) False k ?gd) = - EAGAIN"
  proof (intro allI impI)
    fix k :: nat assume "1 \<le> k \<and> k \<le> 10"
    then obtain k' where "k = Suc k'" by (cases k) auto
    then show "fst (run_passes ex_cfg ex_info_cycle ex_bind_ok (Some 10) False k ?gd) = - EAGAIN"
      using rp[of k'] by simp
  qed
  have res: "fst (lists_bind_drivers ex_cfg ex_info_cycle ex_bind_ok (Some 10) False ?gd) = - EAGAIN
     \<and> fst (lists_bind_drivers ex_cfg ex_info_cycle ex_bind_ok (Some 10) False ?gd) \<noteq> 0"
    using lists_bind_drivers_passes[of ex_cfg ex_info_cycle ex_bind_ok "Some 10" False ?gd] all
    by blast
  have m: "fst (run_passes ex_cfg ex_info_cycle ex_bind_ok (Some 10) False 10 ?gd) = - EAGAIN"
    using all by simp
  show ?thesis using m res by blast
qed

subsection \<open>Filled runtime slots\<close>

lemma bind_drivers_step_cases:
  assumes "bind_drivers_step cfg ext parent pre idx entry (m, res, gd) = (m', res', gd')"
  shows "gd' = gd
       \<or> (\<not> (OF_PLATDATA cfg \<and> drt_dev (gd_dm_driver_rt gd) (int idx) \<noteq> None)
          \<and> (\<exists>par ret dev w'.
                gd' = gd\<lparr>world := w', calls := calls gd @ [Bind_by_name par pre idx ret]\<rparr>
              \<or> gd' = gd\<lparr>world := w', calls := calls gd @ [Bind_by_name par pre idx ret],
                       gd_dm_driver_rt := (gd_dm_driver_rt gd)[idx := Some dev]\<rparr>))"
proof (cases "OF_PLATDATA cfg \<and> drt_dev (gd_dm_driver_rt gd) (int idx) \<noteq> None")
  case True
  then have "gd' = gd" using assms by (simp add: bind_drivers_step_def)
  then show ?thesis by simp
next
  case nf: False
  show ?thesis
  proof (cases "OF_PLATDATA cfg \<and> OF_PLATDATA_PARENT cfg \<and> parent_idx entry \<noteq> - 1
                \<and> drt_dev (gd_dm_driver_rt gd) (parent_idx entry) = None")
    case True
    then have "gd' = gd" using assms nf by (simp add: bind_drivers_step_def)
    then show ?thesis by simp
  next
    case False
    define par where "par = (if OF_PLATDATA cfg \<and> OF_PLATDATA_PARENT cfg \<and> parent_idx entry \<noteq> - 1
                     then drt_dev (gd_dm_driver_rt gd) (parent_idx entry) else parent)"
    obtain ret dev w' where e: "ext par pre idx (world gd) = (ret, dev, w')"
      by (cases "ext par pre idx (world gd)") auto
    have d: "device_bind_by_name ext par pre idx gd
        = (ret, dev, gd\<lparr>world := w', calls := calls gd @ [Bind_by_name par pre idx ret]\<rparr>)"
      by (simp add: device_bind_by_name_def e)
    have s: "bind_drivers_step cfg ext parent pre idx entry (m, res, gd) =
        (case device_bind_by_name ext par pre idx gd of
           (ret, dev, gd1) \<Rightarrow>
             if ret = 0 then
               (m, res,
                if OF_PLATDATA cfg
                then gd1\<lparr>gd_dm_driver_rt := (gd_dm_driver_rt gd1)[idx := Some dev]\<rparr>
                else gd1)
             else if ret \<noteq> - EPERM then
               (m, if res = 0 \<or> ret \<noteq> - ENOENT then ret else res, gd1)
             else (m, res, gd1))"
      unfolding bind_drivers_step_def prod.case if_not_P[OF nf] if_not_P[OF False] Let_def
        par_def[symmetric] ..
    have "gd' = gd\<lparr>world := w', calls := calls gd @ [Bind_by_name par pre idx ret]\<rparr>
              \<or> gd' = gd\<lparr>world := w', calls := calls gd @ [Bind_by_name par pre idx ret],
                       gd_dm_driver_rt := (gd_dm_driver_rt gd)[idx := Some dev]\<rparr>"
      using assms unfolding s d prod.case by (simp split: if_splits)
    then show ?thesis using nf by blast
  qed
qed

lemma step_keeps_slot:
  assumes "OF_PLATDATA cfg" "drt_dev (gd_dm_driver_rt gd) (int i) = Some d"
    and "bind_drivers_step cfg ext parent pre idx entry (m, res, gd) = (m', res', gd')"
  shows "drt_dev (gd_dm_driver_rt gd') (int i) = Some d
       \<and> (\<exists>evs. calls gd' = calls gd @ evs \<and> (\<forall>par p ret. Bind_by_name par p i ret \<notin> set evs))"
proof -
  from bind_drivers_step_cases[OF assms(3)]
  consider (same) "gd' = gd"
    | (bind) par ret dev w' where "drt_dev (gd_dm_driver_rt gd) (int idx) = None"
        "gd' = gd\<lparr>world := w', calls := calls gd @ [Bind_by_name par pre idx ret]\<rparr>
              \<or> gd' = gd\<lparr>world := w', calls := calls gd @ [Bind_by_name par pre idx ret],
                       gd_dm_driver_rt := (gd_dm_driver_rt gd)[idx := Some dev]\<rparr>"
    using assms(1) by blast
  then show ?thesis
  proof cases
    case same
    then show ?thesis using assms(2) by simp
  next
    case bind
    have ne: "idx \<noteq> i" using bind(1) assms(2) by auto
    have c: "calls gd' = calls gd @ [Bind_by_name par pre idx ret]" using bind(2) by auto
    have "drt_dev (gd_dm_driver_rt gd') (int i) = Some d"
      using bind(2) assms(2) ne by (auto simp: drt_dev_def split: if_splits)
    moreover have "\<forall>par' p r. Bind_by_name par' p i r \<notin> set [Bind_by_name par pre idx ret]"
      using ne by simp
    ultimately show ?thesis using c by blast
  qed
qed

lemma loop_keeps_slot:
  assumes "OF_PLATDATA cfg"
  shows "drt_dev (gd_dm_driver_rt gd) (int i) = Some d \<Longrightarrow>
    bind_drivers_loop cfg ext parent pre idx entries (m, res, gd) = (m', res', gd') \<Longrightarrow>
    drt_dev (gd_dm_driver_rt gd') (int i) = Some d
       \<and> (\<exists>evs. calls gd' = calls gd @ evs \<and> (\<forall>par p ret. Bind_by_name par p i ret \<notin> set evs))"
proof (induction entries arbitrary: idx m res gd)
  case Nil
  then show ?case by simp
next
  case (Cons e es)
  obtain m1 r1 g1 where st: "bind_drivers_step cfg ext parent pre idx e (m, res, gd) = (m1, r1, g1)"
    by (cases "bind_drivers_step cfg ext parent pre idx e (m, res, gd)") auto
  from step_keeps_slot[OF assms Cons.prems(1) st] obtain evs1 where
    s1: "drt_dev (gd_dm_driver_rt g1) (int i) = Some d" "calls g1 = calls gd @ evs1"
      "\<forall>par p ret. Bind_by_name par p i ret \<notin> set evs1" by blast
  from Cons.prems(2) st
  have "bind_drivers_loop cfg ext parent pre (Suc idx) es (m1, r1, g1) = (m', res', gd')"
    by simp
  from Cons.IH[OF s1(1) this] obtain evs2 where
    s2: "drt_dev (gd_dm_driver_rt gd') (int i) = Some d" "calls gd' = calls g1 @ evs2"
      "\<forall>par p ret. Bind_by_name par p i ret \<notin> set evs2" by blast
  show ?case using s1 s2 by (intro conjI exI[of _ "evs1 @ evs2"]) auto
qed

lemma pass_keeps_slot:
  assumes "OF_PLATDATA cfg" "drt_dev (gd_dm_driver_rt gd) (int i) = Some d"
    and "bind_drivers_pass cfg info ext parent pre gd = (r, gd')"
  shows "drt_dev (gd_dm_driver_rt gd') (int i) = Some d
       \<and> (\<exists>evs. calls gd' = calls gd @ evs \<and> (\<forall>par p ret. Bind_by_name par p i ret \<notin> set evs))"
proof -
  obtain m' res' where l:
    "bind_drivers_loop cfg ext parent pre 0 info (False, 0, gd) = (m', res', gd')"
    using assms(3) by (auto simp: bind_drivers_pass_def split: prod.splits)
  show ?thesis by (rule loop_keeps_slot[OF assms(1,2) l])
qed

lemma passes_keep_slot:
  assumes "OF_PLATDATA cfg"
  shows "drt_dev (gd_dm_driver_rt gd) (int i) = Some d \<Longrightarrow>
    bind_passes cfg info ext parent pre n result gd = (r, gd') \<Longrightarrow>
    drt_dev (gd_dm_driver_rt gd') (int i) = Some d
       \<and> (\<exists>evs. calls gd' = calls gd @ evs \<and> (\<forall>par p ret. Bind_by_name par p i ret \<notin> set evs))"
proof (induction n arbitrary: result gd)
  case 0
  then show ?case by simp
next
  case (Suc n)
  obtain ret g1 where p: "bind_drivers_pass cfg info ext parent pre gd = (ret, g1)"
    by (cases "bind_drivers_pass cfg info ext parent pre gd") auto
  from pass_keeps_slot[OF assms Suc.prems(1) p] obtain evs1 where
    s1: "drt_dev (gd_dm_driver_rt g1) (int i) = Some d" "calls g1 = calls gd @ evs1"
      "\<forall>par p ret. Bind_by_name par p i ret \<notin> set evs1" by blast
  show ?case
  proof (cases "ret = - EAGAIN")
    case False
    then have "gd' = g1" using Suc.prems(2) p by (simp add: Let_def)
    then show ?thesis using s1 by auto
  next
    case True
    then obtain res1 where "bind_passes cfg info ext parent pre n res1 g1 = (r, gd')"
      using Suc.prems(2) p by (auto simp: Let_def split: if_splits)
    from Suc.IH[OF s1(1) this] obtain evs2 where
      s2: "drt_dev (gd_dm_driver_rt gd') (int i) = Some d" "calls gd' = calls g1 @ evs2"
        "\<forall>par p ret. Bind_by_name par p i ret \<notin> set evs2" by blast
    show ?thesis using s1 s2 by (intro conjI exI[of _ "evs1 @ evs2"]) auto
  qed
qed

lemma loop_all_filled:
  assumes "OF_PLATDATA cfg"
  shows "(\<forall>j. idx \<le> j \<and> j < idx + length entries
            \<longrightarrow> drt_dev (gd_dm_driver_rt gd) (int j) \<noteq> None) \<Longrightarrow>
    bind_drivers_loop cfg ext parent pre idx entries (m, res, gd) = (m, res, gd)"
proof (induction entries arbitrary: idx)
  case Nil
  then show ?case by simp
next
  case (Cons e es)
  have "drt_dev (gd_dm_driver_rt gd) (int idx) \<noteq> None" using Cons.prems by simp
  then have st: "bind_drivers_step cfg ext parent pre idx e (m, res, gd) = (m, res, gd)"
    using assms by (simp add: bind_drivers_step_def)
  have "\<forall>j. Suc idx \<le> j \<and> j < Suc idx + length es
          \<longrightarrow> drt_dev (gd_dm_driver_rt gd) (int j) \<noteq> None"
    using Cons.prems by simp
  from Cons.IH[OF this] st show ?case by simp
qed

lemma scanner_all_filled:
  assumes "OF_PLATDATA cfg" "\<forall>j<length info. drt_dev (gd_dm_driver_rt gd) (int j) \<noteq> None"
  shows "lists_bind_drivers cfg info ext parent pre gd = (0, gd)"
proof -
  have "bind_drivers_loop cfg ext parent pre 0 info (False, 0, gd) = (False, 0, gd)"
    using assms(2) by (intro loop_all_filled[OF assms(1)]) simp
  then have "bind_drivers_pass cfg info ext parent pre gd = (0, gd)"
    by (simp add: bind_drivers_pass_def)
  then show ?thesis
    by (rule lists_bind_drivers_one_pass) (simp add: EAGAIN_def)
qed

subsection \<open>A successful bind fills the slot\<close>

lemma bind_drivers_step_eq:
  assumes nf: "\<not> (OF_PLATDATA cfg \<and> drt_dev (gd_dm_driver_rt gd) (int idx) \<noteq> None)"
    and np: "\<not> (OF_PLATDATA cfg \<and> OF_PLATDATA_PARENT cfg \<and> parent_idx entry \<noteq> - 1
                \<and> drt_dev (gd_dm_driver_rt gd) (parent_idx entry) = None)"
    and par: "par = (if OF_PLATDATA cfg \<and> OF_PLATDATA_PARENT cfg \<and> parent_idx entry \<noteq> - 1
                     then drt_dev (gd_dm_driver_rt gd) (parent_idx entry) else parent)"
    and e: "ext par pre idx (world gd) = (ret, dev, w')"
  shows "bind_drivers_step cfg ext parent pre idx entry (m, res, gd) =
      (if ret = 0 then
         (m, res,
          if OF_PLATDATA cfg
          then gd\<lparr>world := w', calls := calls gd @ [Bind_by_name par pre idx ret],
                  gd_dm_driver_rt := (gd_dm_driver_rt gd)[idx := Some dev]\<rparr>
          else gd\<lparr>world := w', calls := calls gd @ [Bind_by_name par pre idx ret]\<rparr>)
       else if ret \<noteq> - EPERM then
         (m, if res = 0 \<or> ret \<noteq> - ENOENT then ret else res,
          gd\<lparr>world := w', calls := calls gd @ [Bind_by_name par pre idx ret]\<rparr>)
       else (m, res, gd\<lparr>world := w', calls := calls gd @ [Bind_by_name par pre idx ret]\<rparr>))"
proof -
  have d: "device_bind_by_name ext par pre idx gd
      = (ret, dev, gd\<lparr>world := w', calls := calls gd @ [Bind_by_name par pre idx ret]\<rparr>)"
    by (simp add: device_bind_by_name_def e)
  have s: "bind_drivers_step cfg ext parent pre idx entry (m, res, gd) =
      (case device_bind_by_name ext par pre idx gd of
         (ret, dev, gd1) \<Rightarrow>
           if ret = 0 then
             (m, res,
              if OF_PLATDATA cfg
              then gd1\<lparr>gd_dm_driver_rt := (gd_dm_driver_rt gd1)[idx := Some dev]\<rparr>
              else gd1)
           else if ret \<noteq> - EPERM then
             (m, if res = 0 \<or> ret \<noteq> - ENOENT then ret else res, gd1)
           else (m, res, gd1))"
    unfolding bind_drivers_step_def prod.case if_not_P[OF nf] if_not_P[OF np] Let_def
      par[symmetric] ..
  show ?thesis unfolding s d prod.case by simp
qed

lemma bound_once_refl: "bound_once i gd gd"
  by (simp add: bound_once_def new_calls_def)

lemma bound_once_trans:
  assumes c1: "calls g1 = calls gd @ e1" and c2: "calls g2 = calls g1 @ e2"
    and b1: "bound_once i gd g1" and b2: "bound_once i g1 g2"
  shows "bound_once i gd g2"
proof -
  have n1: "new_calls gd g1 = e1" using c1 by (simp add: new_calls_def)
  have n2: "new_calls g1 g2 = e2" using c2 by (simp add: new_calls_def)
  have n: "new_calls gd g2 = e1 @ e2" using c1 c2 by (simp add: new_calls_def)
  let ?f1 = "filter (bound_for i) e1" and ?f2 = "filter (bound_for i) e2"
  have len: "length (gd_dm_driver_rt g2) = length (gd_dm_driver_rt gd)"
    using b1 b2 by (simp add: bound_once_def)
  have a1: "?f1 = [] \<Longrightarrow> drt_dev (gd_dm_driver_rt g1) (int i) = drt_dev (gd_dm_driver_rt gd) (int i)"
    and a2: "?f1 \<noteq> [] \<Longrightarrow> drt_dev (gd_dm_driver_rt gd) (int i) = None \<and> length ?f1 = 1
              \<and> drt_dev (gd_dm_driver_rt g1) (int i) \<noteq> None"
    using b1 unfolding bound_once_def n1 by blast+
  have a3: "?f2 = [] \<Longrightarrow> drt_dev (gd_dm_driver_rt g2) (int i) = drt_dev (gd_dm_driver_rt g1) (int i)"
    and a4: "?f2 \<noteq> [] \<Longrightarrow> drt_dev (gd_dm_driver_rt g1) (int i) = None \<and> length ?f2 = 1
              \<and> drt_dev (gd_dm_driver_rt g2) (int i) \<noteq> None"
    using b2 unfolding bound_once_def n2 by blast+
  have f: "filter (bound_for i) (e1 @ e2) = ?f1 @ ?f2" by simp
  consider (none) "?f1 = []" "?f2 = []" | (first) "?f1 \<noteq> []" | (second) "?f1 = []" "?f2 \<noteq> []"
    by blast
  then have "(?f1 @ ?f2 = []
           \<longrightarrow> drt_dev (gd_dm_driver_rt g2) (int i) = drt_dev (gd_dm_driver_rt gd) (int i))
      \<and> (?f1 @ ?f2 \<noteq> []
           \<longrightarrow> drt_dev (gd_dm_driver_rt gd) (int i) = None
             \<and> length (?f1 @ ?f2) = 1
             \<and> drt_dev (gd_dm_driver_rt g2) (int i) \<noteq> None)"
  proof cases
    case none
    then show ?thesis using a1 a3 by simp
  next
    case first
    from a2[OF first] have p: "drt_dev (gd_dm_driver_rt gd) (int i) = None" "length ?f1 = 1"
      "drt_dev (gd_dm_driver_rt g1) (int i) \<noteq> None" by simp_all
    have e: "?f2 = []"
    proof (rule ccontr)
      assume "?f2 \<noteq> []"
      from a4[OF this] p(3) show False by simp
    qed
    have "drt_dev (gd_dm_driver_rt g2) (int i) \<noteq> None" using a3[OF e] p(3) by simp
    then show ?thesis using p(1,2) e first by simp
  next
    case second
    from a4[OF second(2)] have p: "drt_dev (gd_dm_driver_rt g1) (int i) = None" "length ?f2 = 1"
      "drt_dev (gd_dm_driver_rt g2) (int i) \<noteq> None" by simp_all
    have "drt_dev (gd_dm_driver_rt gd) (int i) = None" using a1[OF second(1)] p(1) by simp
    then show ?thesis using p(2,3) second by simp
  qed
  then show ?thesis unfolding bound_once_def n f using len by blast
qed

lemma step_bound_once:
  assumes pl: "OF_PLATDATA cfg" and i: "i < length (gd_dm_driver_rt gd)"
    and st: "bind_drivers_step cfg ext parent pre idx entry (m, res, gd) = (m', res', gd')"
  shows "(\<exists>evs. calls gd' = calls gd @ evs) \<and> bound_once i gd gd'"
proof (cases "drt_dev (gd_dm_driver_rt gd) (int idx) \<noteq> None")
  case True
  then have "gd' = gd" using st pl by (simp add: bind_drivers_step_def)
  then show ?thesis using bound_once_refl by simp
next
  case empty: False
  then have nf: "\<not> (OF_PLATDATA cfg \<and> drt_dev (gd_dm_driver_rt gd) (int idx) \<noteq> None)" by simp
  show ?thesis
  proof (cases "OF_PLATDATA cfg \<and> OF_PLATDATA_PARENT cfg \<and> parent_idx entry \<noteq> - 1
                \<and> drt_dev (gd_dm_driver_rt gd) (parent_idx entry) = None")
    case True
    then have "gd' = gd" using st nf by (simp add: bind_drivers_step_def)
    then show ?thesis using bound_once_refl by simp
  next
    case np: False
    define par where "par = (if OF_PLATDATA cfg \<and> OF_PLATDATA_PARENT cfg \<and> parent_idx entry \<noteq> - 1
                     then drt_dev (gd_dm_driver_rt gd) (parent_idx entry) else parent)"
    obtain ret dev w' where e: "ext par pre idx (world gd) = (ret, dev, w')"
      by (cases "ext par pre idx (world gd)") auto
    let ?ev = "Bind_by_name par pre idx ret"
    let ?g1 = "gd\<lparr>world := w', calls := calls gd @ [?ev]\<rparr>"
    note eq = bind_drivers_step_eq[where ext = ext and par = par and pre = pre and idx = idx
        and gd = gd and cfg = cfg and entry = entry and parent = parent and m = m and res = res,
        OF nf np par_def e]
    show ?thesis
    proof (cases "ret = 0")
      case True
      then have g: "gd' = ?g1\<lparr>gd_dm_driver_rt := (gd_dm_driver_rt gd)[idx := Some dev]\<rparr>"
        using st pl unfolding eq by simp
      have c: "calls gd' = calls gd @ [?ev]" using g by simp
      have nc: "new_calls gd gd' = [?ev]" using c by (simp add: new_calls_def)
      have len: "length (gd_dm_driver_rt gd') = length (gd_dm_driver_rt gd)" using g by simp
      have b: "bound_once i gd gd'"
      proof (cases "idx = i")
        case same: True
        have f: "filter (bound_for i) [?ev] = [?ev]" using same True by simp
        have s0: "drt_dev (gd_dm_driver_rt gd) (int i) = None" using empty same by simp
        have s1: "drt_dev (gd_dm_driver_rt gd') (int i) \<noteq> None"
          using g same i by (simp add: drt_dev_def)
        show ?thesis unfolding bound_once_def nc f using len s0 s1 by simp
      next
        case other: False
        have f: "filter (bound_for i) [?ev] = []" using other by simp
        have s1: "drt_dev (gd_dm_driver_rt gd') (int i) = drt_dev (gd_dm_driver_rt gd) (int i)"
          using g other by (simp add: drt_dev_def)
        show ?thesis unfolding bound_once_def nc f using len s1 by simp
      qed
      show ?thesis using c b by blast
    next
      case False
      then have g: "gd' = ?g1" using st unfolding eq by (simp split: if_splits)
      have c: "calls gd' = calls gd @ [?ev]" using g by simp
      have nc: "new_calls gd gd' = [?ev]" using c by (simp add: new_calls_def)
      have f: "filter (bound_for i) [?ev] = []" using False by simp
      have "bound_once i gd gd'" unfolding bound_once_def nc f using g by simp
      then show ?thesis using c by blast
    qed
  qed
qed

lemma loop_bound_once:
  assumes pl: "OF_PLATDATA cfg"
  shows "i < length (gd_dm_driver_rt gd) \<Longrightarrow>
    bind_drivers_loop cfg ext parent pre idx entries (m, res, gd) = (m', res', gd') \<Longrightarrow>
    (\<exists>evs. calls gd' = calls gd @ evs) \<and> bound_once i gd gd'"
proof (induction entries arbitrary: idx m res gd)
  case Nil
  then show ?case using bound_once_refl by simp
next
  case (Cons e es)
  obtain m1 r1 g1 where st: "bind_drivers_step cfg ext parent pre idx e (m, res, gd) = (m1, r1, g1)"
    by (cases "bind_drivers_step cfg ext parent pre idx e (m, res, gd)") auto
  from step_bound_once[OF pl Cons.prems(1) st] obtain e1 where
    s1: "calls g1 = calls gd @ e1" "bound_once i gd g1" by blast
  have i1: "i < length (gd_dm_driver_rt g1)" using s1(2) Cons.prems(1) by (simp add: bound_once_def)
  from Cons.prems(2) st
  have "bind_drivers_loop cfg ext parent pre (Suc idx) es (m1, r1, g1) = (m', res', gd')"
    by simp
  from Cons.IH[OF i1 this] obtain e2 where
    s2: "calls gd' = calls g1 @ e2" "bound_once i g1 gd'" by blast
  have "calls gd' = calls gd @ (e1 @ e2)" using s1(1) s2(1) by simp
  moreover have "bound_once i gd gd'" by (rule bound_once_trans[OF s1(1) s2(1) s1(2) s2(2)])
  ultimately show ?case by blast
qed

lemma pass_bound_once:
  assumes "OF_PLATDATA cfg" "i < length (gd_dm_driver_rt gd)"
    and "bind_drivers_pass cfg info ext parent pre gd = (r, gd')"
  shows "(\<exists>evs. calls gd' = calls gd @ evs) \<and> bound_once i gd gd'"
proof -
  obtain m' res' where l:
    "bind_drivers_loop cfg ext parent pre 0 info (False, 0, gd) = (m', res', gd')"
    using assms(3) by (auto simp: bind_drivers_pass_def split: prod.splits)
  show ?thesis by (rule loop_bound_once[OF assms(1,2) l])
qed

lemma passes_bound_once:
  assumes pl: "OF_PLATDATA cfg"
  shows "i < length (gd_dm_driver_rt gd) \<Longrightarrow>
    bind_passes cfg info ext parent pre n result gd = (r, gd') \<Longrightarrow>
    (\<exists>evs. calls gd' = calls gd @ evs) \<and> bound_once i gd gd'"
proof (induction n arbitrary: result gd)
  case 0
  then show ?case using bound_once_refl by simp
next
  case (Suc n)
  obtain ret g1 where p: "bind_drivers_pass cfg info ext parent pre gd = (ret, g1)"
    by (cases "bind_drivers_pass cfg info ext parent pre gd") auto
  from pass_bound_once[OF pl Suc.prems(1) p] obtain e1 where
    s1: "calls g1 = calls gd @ e1" "bound_once i gd g1" by blast
  show ?case
  proof (cases "ret = - EAGAIN")
    case False
    then have "gd' = g1" using Suc.prems(2) p by (simp add: Let_def)
    then show ?thesis using s1 by blast
  next
    case True
    then obtain res1 where l: "bind_passes cfg info ext parent pre n res1 g1 = (r, gd')"
      using Suc.prems(2) p by (auto simp: Let_def split: if_splits)
    have i1: "i < length (gd_dm_driver_rt g1)" using s1(2) Suc.prems(1) by (simp add: bound_once_def)
    from Suc.IH[OF i1 l] obtain e2 where
      s2: "calls gd' = calls g1 @ e2" "bound_once i g1 gd'" by blast
    have "calls gd' = calls gd @ (e1 @ e2)" using s1(1) s2(1) by simp
    moreover have "bound_once i gd gd'" by (rule bound_once_trans[OF s1(1) s2(1) s1(2) s2(2)])
    ultimately show ?thesis by blast
  qed
qed

lemma scanner_bound_once:
  assumes "OF_PLATDATA cfg" "i < length (gd_dm_driver_rt gd)"
  shows "(\<exists>evs. calls (snd (lists_bind_drivers cfg info ext parent pre gd)) = calls gd @ evs)
       \<and> bound_once i gd (snd (lists_bind_drivers cfg info ext parent pre gd))"
proof -
  obtain r gd' where p: "bind_passes cfg info ext parent pre 10 0 gd = (r, gd')"
    by (cases "bind_passes cfg info ext parent pre 10 0 gd") auto
  from passes_bound_once[OF assms p] show ?thesis
    unfolding lists_bind_drivers_def p by simp
qed

text \<open>
  C6 (as amended). With \<^verbatim>\<open>OF_PLATDATA\<close> enabled, the static-descriptor pass binds
  each descriptor at most once. A successful \<^verbatim>\<open>device_bind_by_name\<close> for a descriptor
  records the new device in the descriptor's runtime slot. A descriptor whose slot
  already records a device is skipped by every pass and by every run of
  \<^verbatim>\<open>lists_bind_drivers\<close>: no \<^verbatim>\<open>device_bind_by_name\<close> call is made for its index and
  the slot keeps its device. So, for a descriptor that has a slot in the table, at most
  one bind succeeds in a pass, in a run of \<^verbatim>\<open>lists_bind_drivers\<close>, and in two runs one
  after the other (with any binder and arguments); when one succeeds, the slot was
  empty before and records a device afterwards. When every descriptor's slot is filled,
  a run of \<^verbatim>\<open>lists_bind_drivers\<close> makes no call at all, changes nothing and returns 0.
\<close>

theorem bind_drivers_filled_slot_skipped:
  assumes "OF_PLATDATA cfg"
  shows "(drt_dev (gd_dm_driver_rt gd) (int i) = Some d \<longrightarrow>
            (\<forall>par p ret. Bind_by_name par p i ret
                \<notin> set (new_calls gd (snd (bind_drivers_pass cfg info ext parent pre gd))))
          \<and> drt_dev (gd_dm_driver_rt (snd (bind_drivers_pass cfg info ext parent pre gd))) (int i)
              = Some d
          \<and> (\<forall>par p ret. Bind_by_name par p i ret
                \<notin> set (new_calls gd (snd (lists_bind_drivers cfg info ext parent pre gd))))
          \<and> drt_dev (gd_dm_driver_rt (snd (lists_bind_drivers cfg info ext parent pre gd))) (int i)
              = Some d)
       \<and> ((\<forall>j<length info. drt_dev (gd_dm_driver_rt gd) (int j) \<noteq> None)
            \<longrightarrow> lists_bind_drivers cfg info ext parent pre gd = (0, gd))
       \<and> (drt_dev (gd_dm_driver_rt gd) (int idx) = None
           \<and> \<not> (OF_PLATDATA_PARENT cfg \<and> parent_idx entry \<noteq> - 1
                 \<and> drt_dev (gd_dm_driver_rt gd) (parent_idx entry) = None)
           \<and> par0 = (if OF_PLATDATA_PARENT cfg \<and> parent_idx entry \<noteq> - 1
                      then drt_dev (gd_dm_driver_rt gd) (parent_idx entry) else parent)
           \<and> ext par0 pre idx (world gd) = (0, dev, w')
            \<longrightarrow> bind_drivers_step cfg ext parent pre idx entry (m, res, gd)
                  = (m, res,
                     gd\<lparr>world := w', calls := calls gd @ [Bind_by_name par0 pre idx 0],
                        gd_dm_driver_rt := (gd_dm_driver_rt gd)[idx := Some dev]\<rparr>))
       \<and> (i < length (gd_dm_driver_rt gd)
            \<longrightarrow> bound_once i gd (snd (bind_drivers_pass cfg info ext parent pre gd))
              \<and> bound_once i gd (snd (lists_bind_drivers cfg info ext parent pre gd))
              \<and> bound_once i gd
                  (snd (lists_bind_drivers cfg info ext2 parent2 pre2
                         (snd (lists_bind_drivers cfg info ext parent pre gd)))))"
proof -
  have one: "(\<forall>par p ret. Bind_by_name par p i ret
                \<notin> set (new_calls gd (snd (bind_drivers_pass cfg info ext parent pre gd))))
          \<and> drt_dev (gd_dm_driver_rt (snd (bind_drivers_pass cfg info ext parent pre gd))) (int i)
              = Some d"
    if s: "drt_dev (gd_dm_driver_rt gd) (int i) = Some d"
  proof -
    obtain r gd' where p: "bind_drivers_pass cfg info ext parent pre gd = (r, gd')"
      by (cases "bind_drivers_pass cfg info ext parent pre gd") auto
    from pass_keeps_slot[OF assms s p] show ?thesis
      unfolding p by (auto simp: new_calls_def)
  qed
  have all: "(\<forall>par p ret. Bind_by_name par p i ret
                \<notin> set (new_calls gd (snd (lists_bind_drivers cfg info ext parent pre gd))))
          \<and> drt_dev (gd_dm_driver_rt (snd (lists_bind_drivers cfg info ext parent pre gd))) (int i)
              = Some d"
    if s: "drt_dev (gd_dm_driver_rt gd) (int i) = Some d"
  proof -
    obtain r gd' where p: "bind_passes cfg info ext parent pre 10 0 gd = (r, gd')"
      by (cases "bind_passes cfg info ext parent pre 10 0 gd") auto
    from passes_keep_slot[OF assms s p] show ?thesis
      unfolding lists_bind_drivers_def p by (auto simp: new_calls_def)
  qed
  have filled: "lists_bind_drivers cfg info ext parent pre gd = (0, gd)"
    if "\<forall>j<length info. drt_dev (gd_dm_driver_rt gd) (int j) \<noteq> None"
    using scanner_all_filled[OF assms that] .
  have records: "bind_drivers_step cfg ext parent pre idx entry (m, res, gd)
                  = (m, res,
                     gd\<lparr>world := w', calls := calls gd @ [Bind_by_name par0 pre idx 0],
                        gd_dm_driver_rt := (gd_dm_driver_rt gd)[idx := Some dev]\<rparr>)"
    if e: "drt_dev (gd_dm_driver_rt gd) (int idx) = None"
      and np: "\<not> (OF_PLATDATA_PARENT cfg \<and> parent_idx entry \<noteq> - 1
                 \<and> drt_dev (gd_dm_driver_rt gd) (parent_idx entry) = None)"
      and pa: "par0 = (if OF_PLATDATA_PARENT cfg \<and> parent_idx entry \<noteq> - 1
                      then drt_dev (gd_dm_driver_rt gd) (parent_idx entry) else parent)"
      and ex: "ext par0 pre idx (world gd) = (0, dev, w')"
  proof -
    have nf: "\<not> (OF_PLATDATA cfg \<and> drt_dev (gd_dm_driver_rt gd) (int idx) \<noteq> None)"
      using e by simp
    have np': "\<not> (OF_PLATDATA cfg \<and> OF_PLATDATA_PARENT cfg \<and> parent_idx entry \<noteq> - 1
                \<and> drt_dev (gd_dm_driver_rt gd) (parent_idx entry) = None)"
      using np by simp
    have pa': "par0 = (if OF_PLATDATA cfg \<and> OF_PLATDATA_PARENT cfg \<and> parent_idx entry \<noteq> - 1
                     then drt_dev (gd_dm_driver_rt gd) (parent_idx entry) else parent)"
      using pa assms by simp
    show ?thesis
      using bind_drivers_step_eq[where ext = ext and par = par0 and pre = pre and idx = idx
          and gd = gd and cfg = cfg and entry = entry and parent = parent and m = m
          and res = res, OF nf np' pa' ex] assms
      by simp
  qed
  have once: "bound_once i gd (snd (bind_drivers_pass cfg info ext parent pre gd))
              \<and> bound_once i gd (snd (lists_bind_drivers cfg info ext parent pre gd))
              \<and> bound_once i gd
                  (snd (lists_bind_drivers cfg info ext2 parent2 pre2
                         (snd (lists_bind_drivers cfg info ext parent pre gd))))"
    if i: "i < length (gd_dm_driver_rt gd)"
  proof -
    obtain r gd' where p: "bind_drivers_pass cfg info ext parent pre gd = (r, gd')"
      by (cases "bind_drivers_pass cfg info ext parent pre gd") auto
    have a: "bound_once i gd (snd (bind_drivers_pass cfg info ext parent pre gd))"
      using pass_bound_once[OF assms i p] unfolding p by simp
    let ?g1 = "snd (lists_bind_drivers cfg info ext parent pre gd)"
    from scanner_bound_once[OF assms i, of info ext parent pre] obtain e1 where
      s1: "calls ?g1 = calls gd @ e1" "bound_once i gd ?g1" by blast
    have i1: "i < length (gd_dm_driver_rt ?g1)" using s1(2) i by (simp add: bound_once_def)
    let ?g2 = "snd (lists_bind_drivers cfg info ext2 parent2 pre2 ?g1)"
    from scanner_bound_once[OF assms i1, of info ext2 parent2 pre2] obtain e2 where
      s2: "calls ?g2 = calls ?g1 @ e2" "bound_once i ?g1 ?g2" by blast
    have c: "bound_once i gd ?g2" by (rule bound_once_trans[OF s1(1) s2(1) s1(2) s2(2)])
    show ?thesis using a s1(2) c by (intro conjI)
  qed
  show ?thesis using one all filled records once by blast
qed

theorem bind_drivers_filled_slot_skipped_witness:
  "OF_PLATDATA ex_cfg
   \<and> drt_dev (gd_dm_driver_rt (ex_gd [Some 100, None])) (int 0) = Some 100
   \<and> lists_bind_drivers ex_cfg ex_info2 ex_bind_ok (Some 10) False (ex_gd [Some 100, None])
       = (0, (ex_gd [Some 100, Some 101])\<lparr>calls := [Bind_by_name (Some 10) False 1 0]\<rparr>)
   \<and> lists_bind_drivers ex_cfg ex_info2 ex_bind_ok (Some 10) False (ex_gd [Some 100, Some 101])
       = (0, ex_gd [Some 100, Some 101])
   \<and> bound_once 1 (ex_gd [Some 100, None])
        ((ex_gd [Some 100, Some 101])\<lparr>calls := [Bind_by_name (Some 10) False 1 0]\<rparr>)"
proof -
  have c: "OF_PLATDATA ex_cfg" by (simp add: ex_cfg_def)
  have s: "drt_dev (gd_dm_driver_rt (ex_gd [Some 100, None])) (int 0) = Some 100"
    by (simp add: drt_dev_def ex_gd_def)
  have p: "bind_drivers_pass ex_cfg ex_info2 ex_bind_ok (Some 10) False (ex_gd [Some 100, None])
       = (0, (ex_gd [Some 100, Some 101])\<lparr>calls := [Bind_by_name (Some 10) False 1 0]\<rparr>)"
    by (simp add: bind_drivers_pass_def bind_drivers_step_def device_bind_by_name_def
        drt_dev_def ex_cfg_def ex_info2_def ex_bind_ok_def ex_gd_def)
  have r: "lists_bind_drivers ex_cfg ex_info2 ex_bind_ok (Some 10) False (ex_gd [Some 100, None])
       = (0, (ex_gd [Some 100, Some 101])\<lparr>calls := [Bind_by_name (Some 10) False 1 0]\<rparr>)"
    by (rule lists_bind_drivers_one_pass[OF p]) (simp add: EAGAIN_def)
  have f: "\<forall>j<length ex_info2. drt_dev (gd_dm_driver_rt (ex_gd [Some 100, Some 101])) (int j) \<noteq> None"
    by (simp add: ex_info2_def drt_dev_def ex_gd_def less_Suc_eq eval_nat_numeral)
  have a: "lists_bind_drivers ex_cfg ex_info2 ex_bind_ok (Some 10) False (ex_gd [Some 100, Some 101])
       = (0, ex_gd [Some 100, Some 101])"
    using bind_drivers_filled_slot_skipped[where cfg = ex_cfg and gd = "ex_gd [Some 100, Some 101]"
        and info = ex_info2 and ext = ex_bind_ok and parent = "Some 10" and pre = False,
        OF c, THEN conjunct2, THEN conjunct1] f
    by (rule mp)
  have l: "1 < length (gd_dm_driver_rt (ex_gd [Some 100, None]))" by (simp add: ex_gd_def)
  have "bound_once 1 (ex_gd [Some 100, None])
      (snd (lists_bind_drivers ex_cfg ex_info2 ex_bind_ok (Some 10) False (ex_gd [Some 100, None])))"
    using bind_drivers_filled_slot_skipped[where cfg = ex_cfg and gd = "ex_gd [Some 100, None]"
        and info = ex_info2 and ext = ex_bind_ok and parent = "Some 10" and pre = False
        and i = 1, OF c, THEN conjunct2, THEN conjunct2, THEN conjunct2] l
    by blast
  then have b: "bound_once 1 (ex_gd [Some 100, None])
        ((ex_gd [Some 100, Some 101])\<lparr>calls := [Bind_by_name (Some 10) False 1 0]\<rparr>)"
    unfolding r by simp
  show ?thesis using c s r a b by (intro conjI)
qed

text \<open>
  C6, the claim as stated fails in two ways. Without \<^verbatim>\<open>OF_PLATDATA\<close> no slot is
  written or read: a second run after a successful one binds the descriptor again.
  With \<^verbatim>\<open>OF_PLATDATA\<close>, a run before relocation in which the binder answers
  \<^verbatim>\<open>-EPERM\<close> succeeds with the slot still empty, and the next run binds a device.
\<close>

theorem bind_drivers_rerun_counterexample:
  "lists_bind_drivers ex_cfg_off ex_info1 ex_bind_ok (Some 10) False (ex_gd [None])
     = (0, (ex_gd [None])\<lparr>calls := [Bind_by_name (Some 10) False 0 0]\<rparr>)
   \<and> lists_bind_drivers ex_cfg_off ex_info1 ex_bind_ok (Some 10) False
       ((ex_gd [None])\<lparr>calls := [Bind_by_name (Some 10) False 0 0]\<rparr>)
     = (0, (ex_gd [None])\<lparr>calls := [Bind_by_name (Some 10) False 0 0,
                                      Bind_by_name (Some 10) False 0 0]\<rparr>)
   \<and> lists_bind_drivers ex_cfg ex_info1 ex_bind_reloc (Some 10) True (ex_gd [None])
     = (0, (ex_gd [None])\<lparr>calls := [Bind_by_name (Some 10) True 0 (- 1)]\<rparr>)
   \<and> lists_bind_drivers ex_cfg ex_info1 ex_bind_reloc (Some 10) False
       ((ex_gd [None])\<lparr>calls := [Bind_by_name (Some 10) True 0 (- 1)]\<rparr>)
     = (0, (ex_gd [Some 100])\<lparr>calls := [Bind_by_name (Some 10) True 0 (- 1),
                                         Bind_by_name (Some 10) False 0 0]\<rparr>)"
proof -
  have ne: "(0::int) \<noteq> - EAGAIN" by (simp add: EAGAIN_def)
  have p1: "bind_drivers_pass ex_cfg_off ex_info1 ex_bind_ok (Some 10) False (ex_gd [None])
     = (0, (ex_gd [None])\<lparr>calls := [Bind_by_name (Some 10) False 0 0]\<rparr>)"
    by (simp add: bind_drivers_pass_def bind_drivers_step_def device_bind_by_name_def
        drt_dev_def ex_cfg_off_def ex_info1_def ex_bind_ok_def ex_gd_def)
  have p2: "bind_drivers_pass ex_cfg_off ex_info1 ex_bind_ok (Some 10) False
       ((ex_gd [None])\<lparr>calls := [Bind_by_name (Some 10) False 0 0]\<rparr>)
     = (0, (ex_gd [None])\<lparr>calls := [Bind_by_name (Some 10) False 0 0,
                                      Bind_by_name (Some 10) False 0 0]\<rparr>)"
    by (simp add: bind_drivers_pass_def bind_drivers_step_def device_bind_by_name_def
        drt_dev_def ex_cfg_off_def ex_info1_def ex_bind_ok_def ex_gd_def)
  have p3: "bind_drivers_pass ex_cfg ex_info1 ex_bind_reloc (Some 10) True (ex_gd [None])
     = (0, (ex_gd [None])\<lparr>calls := [Bind_by_name (Some 10) True 0 (- 1)]\<rparr>)"
    by (simp add: bind_drivers_pass_def bind_drivers_step_def device_bind_by_name_def
        drt_dev_def ex_cfg_def ex_info1_def ex_bind_reloc_def ex_gd_def EPERM_def)
  have p4: "bind_drivers_pass ex_cfg ex_info1 ex_bind_reloc (Some 10) False
       ((ex_gd [None])\<lparr>calls := [Bind_by_name (Some 10) True 0 (- 1)]\<rparr>)
     = (0, (ex_gd [Some 100])\<lparr>calls := [Bind_by_name (Some 10) True 0 (- 1),
                                         Bind_by_name (Some 10) False 0 0]\<rparr>)"
    by (simp add: bind_drivers_pass_def bind_drivers_step_def device_bind_by_name_def
        drt_dev_def ex_cfg_def ex_info1_def ex_bind_reloc_def ex_gd_def EPERM_def)
  show ?thesis
    by (intro conjI lists_bind_drivers_one_pass[OF p1 ne] lists_bind_drivers_one_pass[OF p2 ne]
        lists_bind_drivers_one_pass[OF p3 ne] lists_bind_drivers_one_pass[OF p4 ne])
qed

section \<open>Properties of \<^verbatim>\<open>lists_bind_fdt\<close>\<close>

subsection \<open>The scan over the drivers\<close>

lemma of_match_loop_ret:
  "fst (of_match_loop ms of_id cstr) = (if cstr \<in> set (map id_compatible ms) then 0 else - ENOENT)"
  by (induction ms) auto

lemma driver_check_compatible_ret:
  "fst (driver_check_compatible (of_match entry) of_id cstr)
     = (if of_match_has entry cstr then 0 else - ENOENT)"
  by (cases "of_match entry")
     (simp_all add: driver_check_compatible_def of_match_has_def of_match_loop_ret)

lemma driver_check_compatible_match:
  "driver_check_compatible (of_match entry) of_id cstr = (ret, of_id') \<Longrightarrow>
   (ret = 0) = of_match_has entry cstr"
  using driver_check_compatible_ret[of entry of_id cstr] by (auto simp: ENOENT_def)

lemma driver_scan_unrestricted_None:
  "driver_scan ds k0 None cstr = None \<Longrightarrow> \<forall>e\<in>set ds. \<not> of_match_has e cstr"
proof (induction ds arbitrary: k0)
  case Nil
  then show ?case by simp
next
  case (Cons d ds)
  obtain ret oid where c: "driver_check_compatible (of_match d) None cstr = (ret, oid)"
    by (cases "driver_check_compatible (of_match d) None cstr") auto
  from Cons.prems c have r: "ret \<noteq> 0" and rest: "driver_scan ds (Suc k0) None cstr = None"
    by (auto split: if_splits)
  from r driver_check_compatible_match[OF c] have "\<not> of_match_has d cstr" by simp
  with Cons.IH[OF rest] show ?case by simp
qed

lemma driver_scan_unrestricted_Some:
  "driver_scan ds k0 None cstr = Some (k, entry, oid) \<Longrightarrow>
   k0 \<le> k \<and> first_match ds cstr (k - k0) \<and> entry = ds ! (k - k0)"
proof (induction ds arbitrary: k0)
  case Nil
  then show ?case by simp
next
  case (Cons d ds)
  obtain ret oid' where c: "driver_check_compatible (of_match d) None cstr = (ret, oid')"
    by (cases "driver_check_compatible (of_match d) None cstr") auto
  show ?case
  proof (cases "ret = 0")
    case True
    then have "k = k0" "entry = d" using Cons.prems c by auto
    moreover have "of_match_has d cstr" using True driver_check_compatible_match[OF c] by simp
    ultimately show ?thesis by (simp add: first_match_def)
  next
    case False
    then have rest: "driver_scan ds (Suc k0) None cstr = Some (k, entry, oid)"
      using Cons.prems c by simp
    from Cons.IH[OF rest] have ih: "Suc k0 \<le> k" "first_match ds cstr (k - Suc k0)"
      "entry = ds ! (k - Suc k0)" by auto
    have nm: "\<not> of_match_has d cstr" using False driver_check_compatible_match[OF c] by simp
    have k: "k - k0 = Suc (k - Suc k0)" using ih(1) by simp
    have "first_match (d # ds) cstr (Suc (k - Suc k0))"
      using ih(2) nm by (auto simp: first_match_def less_Suc_eq_0_disj)
    then show ?thesis using ih(1,3) k by simp
  qed
qed

lemma driver_scan_restricted_no_table:
  "j < length ds \<Longrightarrow> of_match (ds ! j) = None \<Longrightarrow>
   driver_scan ds k0 (Some (k0 + j)) cstr = Some (k0 + j, ds ! j, None)"
proof (induction ds arbitrary: k0 j)
  case Nil
  then show ?case by simp
next
  case (Cons d ds)
  show ?case
  proof (cases j)
    case 0
    then show ?thesis using Cons.prems by simp
  next
    case (Suc j')
    then have "driver_scan ds (Suc k0) (Some (Suc k0 + j')) cstr = Some (Suc k0 + j', ds ! j', None)"
      using Cons.prems by (intro Cons.IH) auto
    then show ?thesis using Suc by simp
  qed
qed

lemma driver_scan_no_match:
  assumes "\<forall>e\<in>set ds. \<not> of_match_has e cstr"
    and "\<forall>j. drv = Some j \<and> k0 \<le> j \<and> j - k0 < length ds \<longrightarrow> of_match (ds ! (j - k0)) \<noteq> None"
  shows "driver_scan ds k0 drv cstr = None"
  using assms
proof (induction ds arbitrary: k0)
  case Nil
  then show ?case by simp
next
  case (Cons d ds)
  have rest: "driver_scan ds (Suc k0) drv cstr = None"
  proof (rule Cons.IH)
    show "\<forall>e\<in>set ds. \<not> of_match_has e cstr" using Cons.prems(1) by simp
    show "\<forall>j. drv = Some j \<and> Suc k0 \<le> j \<and> j - Suc k0 < length ds
            \<longrightarrow> of_match (ds ! (j - Suc k0)) \<noteq> None"
    proof (intro allI impI)
      fix j assume j: "drv = Some j \<and> Suc k0 \<le> j \<and> j - Suc k0 < length ds"
      then have "drv = Some j \<and> k0 \<le> j \<and> j - k0 < length (d # ds)" by auto
      then have "of_match ((d # ds) ! (j - k0)) \<noteq> None" using Cons.prems(2) by blast
      moreover have "j - k0 = Suc (j - Suc k0)" using j by arith
      ultimately show "of_match (ds ! (j - Suc k0)) \<noteq> None" by simp
    qed
  qed
  have nm: "fst (driver_check_compatible (of_match d) None cstr) \<noteq> 0"
    using Cons.prems(1) by (simp add: driver_check_compatible_ret ENOENT_def)
  have tbl: "drv = Some k0 \<Longrightarrow> of_match d \<noteq> None"
    using Cons.prems(2)[rule_format, of k0] by simp
  show ?case using rest nm tbl by (auto split: prod.splits)
qed

subsection \<open>The loop over the compatible strings\<close>

lemma compat_loop_calls:
  "compat_loop fl drivers ext parent node drv pre cs gd = (ex, gd') \<Longrightarrow>
   \<exists>evs. calls gd' = calls gd @ evs"
proof (induction cs arbitrary: gd)
  case Nil
  then show ?case by simp
next
  case (Cons c cs)
  show ?case
  proof (cases "driver_scan drivers 0 drv c")
    case None
    then show ?thesis using Cons by simp
  next
    case (Some t)
    obtain k entry oid where t: "t = (k, entry, oid)" by (cases t) auto
    define data where "data = (case oid of None \<Rightarrow> 0 | Some m \<Rightarrow> id_data m)"
    obtain ret dev gd1 where b:
      "device_bind_with_driver_data ext parent k (ofnode_get_name node) data node gd = (ret, dev, gd1)"
      by (cases "device_bind_with_driver_data ext parent k (ofnode_get_name node) data node gd") auto
    then have c1: "calls gd1 = calls gd @ [Bind_with_driver_data parent k (ofnode_get_name node) data ret]"
      by (auto simp: device_bind_with_driver_data_def split: prod.splits)
    show ?thesis
    proof (cases "pre \<and> \<not> ofnode_pre_reloc node \<and> drv_flags entry AND fl = 0")
      case True
      then show ?thesis using Cons.prems Some t by simp
    next
      case False
      show ?thesis
      proof (cases "ret = - ENODEV")
        case True
        then have "compat_loop fl drivers ext parent node drv pre cs gd1 = (ex, gd')"
          using Cons.prems Some t False b unfolding data_def by simp
        from Cons.IH[OF this] c1 show ?thesis by auto
      next
        case nd: False
        then have "gd' = gd1"
          using Cons.prems Some t False b unfolding data_def by (simp split: if_splits)
        then show ?thesis using c1 by simp
      qed
    qed
  qed
qed

lemma compat_loop_no_match:
  "\<forall>c\<in>set cs. driver_scan drivers 0 drv c = None \<Longrightarrow>
   compat_loop fl drivers ext parent node drv pre cs gd = (No_match, gd)"
  by (induction cs) simp_all

lemma compat_loop_append:
  "compat_loop fl drivers ext parent node drv pre cs gd = (No_match, gd1) \<Longrightarrow>
   compat_loop fl drivers ext parent node drv pre (cs @ cs') gd
     = compat_loop fl drivers ext parent node drv pre cs' gd1"
proof (induction cs arbitrary: gd)
  case Nil
  then show ?case by simp
next
  case (Cons c cs)
  show ?case
  proof (cases "driver_scan drivers 0 drv c")
    case None
    then show ?thesis using Cons by simp
  next
    case (Some t)
    obtain k entry oid where t: "t = (k, entry, oid)" by (cases t) auto
    define data where "data = (case oid of None \<Rightarrow> 0 | Some m \<Rightarrow> id_data m)"
    obtain ret dev g where b:
      "device_bind_with_driver_data ext parent k (ofnode_get_name node) data node gd = (ret, dev, g)"
      by (cases "device_bind_with_driver_data ext parent k (ofnode_get_name node) data node gd") auto
    have ng: "\<not> (pre \<and> \<not> ofnode_pre_reloc node \<and> drv_flags entry AND fl = 0)"
      using Cons.prems Some t by auto
    have step: "compat_loop fl drivers ext parent node drv pre (c # rest) gd =
        (if ret = - ENODEV then compat_loop fl drivers ext parent node drv pre rest g
         else if ret \<noteq> 0 then (Bind_error ret, g) else (Bound dev, g))" for rest
      using Some t b unfolding data_def by (simp add: if_not_P[OF ng])
    have r: "ret = - ENODEV"
      using Cons.prems unfolding step by (auto split: if_splits)
    then have "compat_loop fl drivers ext parent node drv pre cs g = (No_match, gd1)"
      using Cons.prems unfolding step by simp
    from Cons.IH[OF this] show ?thesis
      using step[of "cs @ cs'"] r by simp
  qed
qed

lemma compat_loop_refused:
  "compat_loop fl drivers ext parent node drv pre cs gd = (ex, gd') \<Longrightarrow>
   ex = No_match \<or> ex = Skipped \<Longrightarrow>
   \<forall>ev\<in>set (new_calls gd gd'). call_ret ev = - ENODEV"
proof (induction cs arbitrary: gd)
  case Nil
  then show ?case by (simp add: new_calls_def)
next
  case (Cons c cs)
  show ?case
  proof (cases "driver_scan drivers 0 drv c")
    case None
    then show ?thesis using Cons by simp
  next
    case (Some t)
    obtain k entry oid where t: "t = (k, entry, oid)" by (cases t) auto
    define data where "data = (case oid of None \<Rightarrow> 0 | Some m \<Rightarrow> id_data m)"
    obtain ret dev g where b:
      "device_bind_with_driver_data ext parent k (ofnode_get_name node) data node gd = (ret, dev, g)"
      by (cases "device_bind_with_driver_data ext parent k (ofnode_get_name node) data node gd") auto
    then have c1: "calls g = calls gd @ [Bind_with_driver_data parent k (ofnode_get_name node) data ret]"
      by (auto simp: device_bind_with_driver_data_def split: prod.splits)
    show ?thesis
    proof (cases "pre \<and> \<not> ofnode_pre_reloc node \<and> drv_flags entry AND fl = 0")
      case True
      then have "gd' = gd" using Cons.prems Some t by simp
      then show ?thesis by (simp add: new_calls_def)
    next
      case False
      have r: "ret = - ENODEV"
        using Cons.prems Some t False b unfolding data_def by (auto split: if_splits)
      then have l: "compat_loop fl drivers ext parent node drv pre cs g = (ex, gd')"
        using Cons.prems Some t False b unfolding data_def by simp
      from compat_loop_calls[OF l] obtain evs where evs: "calls gd' = calls g @ evs" by blast
      from Cons.IH[OF l Cons.prems(2)] evs
      have "\<forall>ev\<in>set evs. call_ret ev = - ENODEV" by (simp add: new_calls_def)
      then show ?thesis using evs c1 r by (simp add: new_calls_def)
    qed
  qed
qed

subsection \<open>Priority of the compatible strings\<close>

lemma chosen_skip:
  assumes "\<forall>e\<in>set drivers. \<not> of_match_has e c"
    and "chosen_by_priority drivers parent name cs evs"
  shows "chosen_by_priority drivers parent name (c # cs) evs"
proof -
  from assms(2) obtain k j data where k: "k < length cs"
    "last evs = Bind_with_driver_data parent j name data 0"
    "first_match drivers (cs ! k) j"
    "\<forall>k'<k. (\<exists>e\<in>set drivers. of_match_has e (cs ! k')) \<longrightarrow>
        (\<exists>j' data'. first_match drivers (cs ! k') j'
           \<and> Bind_with_driver_data parent j' name data' (- ENODEV) \<in> set (butlast evs))"
    unfolding chosen_by_priority_def by blast
  have "\<forall>k'<Suc k. (\<exists>e\<in>set drivers. of_match_has e ((c # cs) ! k')) \<longrightarrow>
        (\<exists>j' data'. first_match drivers ((c # cs) ! k') j'
           \<and> Bind_with_driver_data parent j' name data' (- ENODEV) \<in> set (butlast evs))"
  proof (intro allI impI)
    fix k' assume a: "k' < Suc k" "\<exists>e\<in>set drivers. of_match_has e ((c # cs) ! k')"
    show "\<exists>j' data'. first_match drivers ((c # cs) ! k') j'
           \<and> Bind_with_driver_data parent j' name data' (- ENODEV) \<in> set (butlast evs)"
    proof (cases k')
      case 0
      then show ?thesis using a(2) assms(1) by simp
    next
      case (Suc k'')
      then show ?thesis using a k(4) by simp
    qed
  qed
  then show ?thesis unfolding chosen_by_priority_def
    using k(1,2,3) by (intro exI[of _ "Suc k"] exI[of _ j] exI[of _ data]) simp
qed

lemma chosen_refused:
  assumes "first_match drivers c j0" and "evs \<noteq> []"
    and "chosen_by_priority drivers parent name cs evs"
  shows "chosen_by_priority drivers parent name (c # cs)
           (Bind_with_driver_data parent j0 name d0 (- ENODEV) # evs)"
proof -
  let ?ev0 = "Bind_with_driver_data parent j0 name d0 (- ENODEV)"
  from assms(3) obtain k j data where k: "k < length cs"
    "last evs = Bind_with_driver_data parent j name data 0"
    "first_match drivers (cs ! k) j"
    "\<forall>k'<k. (\<exists>e\<in>set drivers. of_match_has e (cs ! k')) \<longrightarrow>
        (\<exists>j' data'. first_match drivers (cs ! k') j'
           \<and> Bind_with_driver_data parent j' name data' (- ENODEV) \<in> set (butlast evs))"
    unfolding chosen_by_priority_def by blast
  have bl: "butlast (?ev0 # evs) = ?ev0 # butlast evs" using assms(2) by simp
  have la: "last (?ev0 # evs) = last evs" using assms(2) by simp
  have "\<forall>k'<Suc k. (\<exists>e\<in>set drivers. of_match_has e ((c # cs) ! k')) \<longrightarrow>
        (\<exists>j' data'. first_match drivers ((c # cs) ! k') j'
           \<and> Bind_with_driver_data parent j' name data' (- ENODEV) \<in> set (butlast (?ev0 # evs)))"
  proof (intro allI impI)
    fix k' assume a: "k' < Suc k" "\<exists>e\<in>set drivers. of_match_has e ((c # cs) ! k')"
    show "\<exists>j' data'. first_match drivers ((c # cs) ! k') j'
           \<and> Bind_with_driver_data parent j' name data' (- ENODEV) \<in> set (butlast (?ev0 # evs))"
    proof (cases k')
      case 0
      have "first_match drivers ((c # cs) ! 0) j0 \<and> ?ev0 \<in> set (butlast (?ev0 # evs))"
        using assms(1) bl by simp
      then show ?thesis unfolding 0 by blast
    next
      case (Suc k'')
      then have "\<exists>j' data'. first_match drivers (cs ! k'') j'
           \<and> Bind_with_driver_data parent j' name data' (- ENODEV) \<in> set (butlast evs)"
        using a k(4) by simp
      then show ?thesis unfolding Suc bl by auto
    qed
  qed
  then show ?thesis unfolding chosen_by_priority_def
    using k(1,2,3) la by (intro exI[of _ "Suc k"] exI[of _ j] exI[of _ data]) simp
qed

lemma chosen_first:
  assumes "first_match drivers c j"
  shows "chosen_by_priority drivers parent name (c # cs) [Bind_with_driver_data parent j name data 0]"
  unfolding chosen_by_priority_def
  using assms by (intro exI[of _ 0] exI[of _ j] exI[of _ data]) simp

lemma compat_loop_chosen:
  "compat_loop fl drivers ext parent node None pre cs gd = (ex, gd') \<Longrightarrow>
   \<exists>evs. calls gd' = calls gd @ evs
      \<and> (\<forall>ev\<in>set (butlast evs). call_ret ev = - ENODEV)
      \<and> (evs \<noteq> [] \<and> call_ret (last evs) = 0
           \<longrightarrow> chosen_by_priority drivers parent (ofnode_get_name node) cs evs)"
proof (induction cs arbitrary: gd)
  case Nil
  then show ?case by simp
next
  case (Cons c cs)
  let ?name = "ofnode_get_name node"
  show ?case
  proof (cases "driver_scan drivers 0 None c")
    case None
    then have l: "compat_loop fl drivers ext parent node None pre cs gd = (ex, gd')"
      using Cons.prems by simp
    from Cons.IH[OF l] obtain evs where evs: "calls gd' = calls gd @ evs"
      "\<forall>ev\<in>set (butlast evs). call_ret ev = - ENODEV"
      "evs \<noteq> [] \<and> call_ret (last evs) = 0 \<longrightarrow> chosen_by_priority drivers parent ?name cs evs"
      by blast
    have nm: "\<forall>e\<in>set drivers. \<not> of_match_has e c"
      by (rule driver_scan_unrestricted_None[OF None])
    have "evs \<noteq> [] \<and> call_ret (last evs) = 0
            \<longrightarrow> chosen_by_priority drivers parent ?name (c # cs) evs"
      using evs(3) chosen_skip[OF nm] by blast
    then show ?thesis using evs(1,2) by blast
  next
    case (Some t)
    obtain k entry oid where t: "t = (k, entry, oid)" by (cases t) auto
    have fm: "first_match drivers c k"
      using driver_scan_unrestricted_Some[of drivers 0 c k entry oid] Some t by simp
    define data where "data = (case oid of None \<Rightarrow> 0 | Some m \<Rightarrow> id_data m)"
    obtain ret dev g where b:
      "device_bind_with_driver_data ext parent k ?name data node gd = (ret, dev, g)"
      by (cases "device_bind_with_driver_data ext parent k ?name data node gd") auto
    then have c1: "calls g = calls gd @ [Bind_with_driver_data parent k ?name data ret]"
      by (auto simp: device_bind_with_driver_data_def split: prod.splits)
    show ?thesis
    proof (cases "pre \<and> \<not> ofnode_pre_reloc node \<and> drv_flags entry AND fl = 0")
      case True
      then have "gd' = gd" using Cons.prems Some t by simp
      then show ?thesis by simp
    next
      case ng: False
      have step: "compat_loop fl drivers ext parent node None pre (c # cs) gd =
          (if ret = - ENODEV then compat_loop fl drivers ext parent node None pre cs g
           else if ret \<noteq> 0 then (Bind_error ret, g) else (Bound dev, g))"
        using Some t b unfolding data_def by (simp add: if_not_P[OF ng])
      show ?thesis
      proof (cases "ret = - ENODEV")
        case True
        let ?ev0 = "Bind_with_driver_data parent k ?name data (- ENODEV)"
        have l: "compat_loop fl drivers ext parent node None pre cs g = (ex, gd')"
          using Cons.prems True unfolding step by simp
        from Cons.IH[OF l] obtain evs where evs: "calls gd' = calls g @ evs"
          "\<forall>ev\<in>set (butlast evs). call_ret ev = - ENODEV"
          "evs \<noteq> [] \<and> call_ret (last evs) = 0 \<longrightarrow> chosen_by_priority drivers parent ?name cs evs"
          by blast
        have a: "calls gd' = calls gd @ (?ev0 # evs)" using evs(1) c1 True by simp
        have b': "\<forall>ev\<in>set (butlast (?ev0 # evs)). call_ret ev = - ENODEV"
          using evs(2) by simp
        have c': "chosen_by_priority drivers parent ?name (c # cs) (?ev0 # evs)"
          if s: "call_ret (last (?ev0 # evs)) = 0"
        proof -
          have ne: "evs \<noteq> []"
          proof
            assume "evs = []"
            then have "call_ret (last (?ev0 # evs)) = - ENODEV" by simp
            then show False using s by (simp add: ENODEV_def)
          qed
          then have "call_ret (last evs) = 0" using s by simp
          then have "chosen_by_priority drivers parent ?name cs evs" using evs(3) ne by blast
          then show ?thesis by (rule chosen_refused[OF fm ne])
        qed
        show ?thesis using a b' c' by blast
      next
        case nd: False
        let ?ev0 = "Bind_with_driver_data parent k ?name data ret"
        have g: "gd' = g" using Cons.prems nd unfolding step by (simp split: if_splits)
        have a: "calls gd' = calls gd @ [?ev0]" using g c1 by simp
        have c': "chosen_by_priority drivers parent ?name (c # cs) [?ev0]"
          if s: "call_ret (last [?ev0]) = 0"
        proof -
          have "ret = 0" using s by simp
          then show ?thesis using chosen_first[OF fm] by simp
        qed
        have b': "\<forall>ev\<in>set (butlast [?ev0]). call_ret ev = - ENODEV" by simp
        show ?thesis using a b' c' by blast
      qed
    qed
  qed
qed

lemma lists_bind_fdt_state:
  assumes "ofnode_get_compatible node = Prop_found bytes"
  shows "snd (snd (lists_bind_fdt fl drivers ext parent node devp drv pre gd))
       = snd (compat_loop fl drivers ext parent node drv pre (compat_strings bytes) gd)"
proof -
  obtain ex gd' where l:
    "compat_loop fl drivers ext parent node drv pre (compat_strings bytes) gd = (ex, gd')"
    by (cases "compat_loop fl drivers ext parent node drv pre (compat_strings bytes) gd") auto
  show ?thesis
    by (cases ex) (simp_all add: lists_bind_fdt_def assms l)
qed

text \<open>
  C1 (as amended). When \<^verbatim>\<open>lists_bind_fdt\<close> without a driver restriction binds a
  device (a bind call of the run returned 0), that call is the last one of the run, and
  its driver is the first driver in registry order whose \<^verbatim>\<open>of_match\<close> table contains
  the compatible string \<open>c\<^sub>k\<close>, where every string before \<open>c\<^sub>k\<close> that some driver matches
  was tried first with its first matching driver, and that driver refused to bind
  (\<^verbatim>\<open>-ENODEV\<close>). A lower-priority string is used only after such refusals.
\<close>

theorem lists_bind_fdt_chosen_driver:
  assumes "ofnode_get_compatible node = Prop_found bytes"
    and "lists_bind_fdt fl drivers ext parent node devp None pre gd = (r, devp', gd')"
    and "ev \<in> set (new_calls gd gd')" and "call_ret ev = 0"
  shows "ev = last (new_calls gd gd')
       \<and> chosen_by_priority drivers parent (ofnode_get_name node) (compat_strings bytes)
           (new_calls gd gd')"
proof -
  have "gd' = snd (compat_loop fl drivers ext parent node None pre (compat_strings bytes) gd)"
    using lists_bind_fdt_state[OF assms(1), of fl drivers ext parent devp None pre gd] assms(2)
    by simp
  then obtain ex where l:
    "compat_loop fl drivers ext parent node None pre (compat_strings bytes) gd = (ex, gd')"
    by (cases "compat_loop fl drivers ext parent node None pre (compat_strings bytes) gd") auto
  from compat_loop_chosen[OF l] obtain evs where evs: "calls gd' = calls gd @ evs"
    "\<forall>ev\<in>set (butlast evs). call_ret ev = - ENODEV"
    "evs \<noteq> [] \<and> call_ret (last evs) = 0
       \<longrightarrow> chosen_by_priority drivers parent (ofnode_get_name node) (compat_strings bytes) evs"
    by blast
  have nc: "new_calls gd gd' = evs" using evs(1) by (simp add: new_calls_def)
  have ne: "evs \<noteq> []" using assms(3) nc by auto
  have "ev \<notin> set (butlast evs)" using evs(2) assms(4) by (auto simp: ENODEV_def)
  moreover have "set evs = set (butlast evs) \<union> {last evs}"
    using ne by (metis append_butlast_last_id set_append list.set(1,2))
  ultimately have la: "ev = last evs" using assms(3) nc by auto
  then have "chosen_by_priority drivers parent (ofnode_get_name node) (compat_strings bytes) evs"
    using evs(3) ne assms(4) by simp
  then show ?thesis using la nc by simp
qed

theorem lists_bind_fdt_chosen_driver_witness:
  "lists_bind_fdt 4 ex_drivers ex_bind_node (Some 10) ex_node (Some None) None False (ex_gd [])
     = (0, Some (Some 101),
        (ex_gd [])\<lparr>calls := [Bind_with_driver_data (Some 10) 1 ''foo@0'' 22 0]\<rparr>)
   \<and> chosen_by_priority ex_drivers (Some 10) ''foo@0'' [''acme,foo-v2'', ''generic,foo'']
        [Bind_with_driver_data (Some 10) 1 ''foo@0'' 22 0]"
proof -
  let ?ev = "Bind_with_driver_data (Some 10) 1 ''foo@0'' 22 0"
  let ?bytes = "''acme,foo-v2'' @ [CHR 0x00] @ ''generic,foo'' @ [CHR 0x00]"
  have run: "lists_bind_fdt 4 ex_drivers ex_bind_node (Some 10) ex_node (Some None) None False
       (ex_gd []) = (0, Some (Some 101), (ex_gd [])\<lparr>calls := [?ev]\<rparr>)"
    by (simp add: lists_bind_fdt_def compat_strings.simps driver_check_compatible_def
        device_bind_with_driver_data_def ex_drivers_def ex_drv_generic_def ex_drv_acme_def
        ex_bind_node_def ex_node_def ex_gd_def ENODEV_def ENOENT_def)
  have p: "ofnode_get_compatible ex_node = Prop_found ?bytes" by (simp add: ex_node_def)
  have nc: "new_calls (ex_gd []) ((ex_gd [])\<lparr>calls := [?ev]\<rparr>) = [?ev]"
    by (simp add: new_calls_def ex_gd_def)
  have cs: "compat_strings ?bytes = [''acme,foo-v2'', ''generic,foo'']"
    by (simp add: compat_strings.simps)
  have nm: "ofnode_get_name ex_node = ''foo@0''" by (simp add: ex_node_def)
  have m: "?ev \<in> set (new_calls (ex_gd []) ((ex_gd [])\<lparr>calls := [?ev]\<rparr>))"
    unfolding nc by simp
  have z: "call_ret ?ev = 0" by simp
  have "chosen_by_priority ex_drivers (Some 10) (ofnode_get_name ex_node) (compat_strings ?bytes)
           (new_calls (ex_gd []) ((ex_gd [])\<lparr>calls := [?ev]\<rparr>))"
    using lists_bind_fdt_chosen_driver[OF p run m z] by (rule conjunct2)
  then have "chosen_by_priority ex_drivers (Some 10) ''foo@0'' [''acme,foo-v2'', ''generic,foo''] [?ev]"
    unfolding nc cs nm .
  with run show ?thesis by (rule conjI)
qed

text \<open>
  C1, the claim as stated fails: driver 1 is the first driver that matches the first
  compatible string, but it refuses to bind; the node is bound with driver 0, chosen by
  the second string.
\<close>

theorem lists_bind_fdt_priority_counterexample:
  "lists_bind_fdt 4 ex_drivers ex_bind_refuse (Some 10) ex_node (Some None) None False (ex_gd [])
     = (0, Some (Some 100),
        (ex_gd [])\<lparr>calls := [Bind_with_driver_data (Some 10) 1 ''foo@0'' 22 (- 19),
                             Bind_with_driver_data (Some 10) 0 ''foo@0'' 11 0]\<rparr>)
   \<and> first_match ex_drivers ''acme,foo-v2'' 1
   \<and> first_match ex_drivers ''generic,foo'' 0"
proof -
  have run: "lists_bind_fdt 4 ex_drivers ex_bind_refuse (Some 10) ex_node (Some None) None False
       (ex_gd [])
     = (0, Some (Some 100),
        (ex_gd [])\<lparr>calls := [Bind_with_driver_data (Some 10) 1 ''foo@0'' 22 (- 19),
                             Bind_with_driver_data (Some 10) 0 ''foo@0'' 11 0]\<rparr>)"
    by (simp add: lists_bind_fdt_def compat_strings.simps driver_check_compatible_def
        device_bind_with_driver_data_def ex_drivers_def ex_drv_generic_def ex_drv_acme_def
        ex_bind_refuse_def ex_node_def ex_gd_def ENODEV_def ENOENT_def)
  have a: "first_match ex_drivers ''acme,foo-v2'' 1"
    by (simp add: first_match_def of_match_has_def ex_drivers_def ex_drv_generic_def
        ex_drv_acme_def)
  have b: "first_match ex_drivers ''generic,foo'' 0"
    by (simp add: first_match_def of_match_has_def ex_drivers_def ex_drv_generic_def
        ex_drv_acme_def)
  show ?thesis using run a b by (intro conjI)
qed

subsection \<open>A restricting driver without a match table\<close>

lemma compat_strings_nonempty:
  "bytes \<noteq> [] \<Longrightarrow> \<exists>c cs. compat_strings bytes = c # cs"
  by (subst compat_strings.simps) simp

text \<open>
  C7 (as amended). When \<^verbatim>\<open>lists_bind_fdt\<close> is called with a restricting driver that
  is in the registry and has no \<^verbatim>\<open>of_match\<close> table, for a node with a non-empty
  \<^verbatim>\<open>compatible\<close> property that passes the pre-relocation check, the strings are not
  compared: the first call of the run is \<^verbatim>\<open>device_bind_with_driver_data\<close> for that
  driver with driver data 0, and when it returns 0 the device is created and handed
  back through \<^verbatim>\<open>devp\<close>.
\<close>

theorem lists_bind_fdt_forced_driver:
  assumes "j < length drivers" and "of_match (drivers ! j) = None"
    and "ofnode_get_compatible node = Prop_found bytes" and "bytes \<noteq> []"
    and "\<not> (pre \<and> \<not> ofnode_pre_reloc node \<and> drv_flags (drivers ! j) AND fl = 0)"
    and "ext parent j (ofnode_get_name node) 0 node (world gd) = (ret, dev, w')"
  shows "(\<exists>rest. new_calls gd
              (snd (snd (lists_bind_fdt fl drivers ext parent node devp (Some j) pre gd)))
            = Bind_with_driver_data parent j (ofnode_get_name node) 0 ret # rest)
       \<and> (ret = 0 \<longrightarrow>
            lists_bind_fdt fl drivers ext parent node devp (Some j) pre gd
              = (0, map_option (\<lambda>v. Some dev) devp,
                 gd\<lparr>world := w',
                    calls := calls gd @ [Bind_with_driver_data parent j (ofnode_get_name node) 0 0]\<rparr>))"
proof -
  let ?name = "ofnode_get_name node"
  let ?ev0 = "Bind_with_driver_data parent j ?name 0 ret"
  let ?g = "gd\<lparr>world := w', calls := calls gd @ [?ev0]\<rparr>"
  from compat_strings_nonempty[OF assms(4)] obtain c cs where cs: "compat_strings bytes = c # cs"
    by blast
  have sc: "driver_scan drivers 0 (Some j) c = Some (j, drivers ! j, None)"
    using driver_scan_restricted_no_table[OF assms(1,2), of 0 c] by simp
  have b: "device_bind_with_driver_data ext parent j ?name 0 node gd = (ret, dev, ?g)"
    by (simp add: device_bind_with_driver_data_def assms(6))
  have step: "compat_loop fl drivers ext parent node (Some j) pre (c # cs) gd =
      (if ret = - ENODEV then compat_loop fl drivers ext parent node (Some j) pre cs ?g
       else if ret \<noteq> 0 then (Bind_error ret, ?g) else (Bound dev, ?g))"
    using sc b by (simp add: if_not_P[OF assms(5)])
  have first: "\<exists>rest. new_calls gd
              (snd (compat_loop fl drivers ext parent node (Some j) pre (c # cs) gd)) = ?ev0 # rest"
  proof (cases "ret = - ENODEV")
    case True
    obtain ex gd' where l:
      "compat_loop fl drivers ext parent node (Some j) pre cs ?g = (ex, gd')"
      by (cases "compat_loop fl drivers ext parent node (Some j) pre cs ?g") auto
    from compat_loop_calls[OF l] obtain evs where "calls gd' = calls ?g @ evs" by blast
    then have "new_calls gd gd' = ?ev0 # evs" by (simp add: new_calls_def)
    then show ?thesis unfolding step using True l by simp
  next
    case False
    then show ?thesis unfolding step by (simp add: new_calls_def)
  qed
  have second: "lists_bind_fdt fl drivers ext parent node devp (Some j) pre gd
              = (0, map_option (\<lambda>v. Some dev) devp,
                 gd\<lparr>world := w', calls := calls gd @ [Bind_with_driver_data parent j ?name 0 0]\<rparr>)"
    if "ret = 0"
    using that step
    by (cases devp) (simp_all add: lists_bind_fdt_def assms(3) cs ENODEV_def)
  show ?thesis
    using first second unfolding lists_bind_fdt_state[OF assms(3)] cs by blast
qed

theorem lists_bind_fdt_forced_driver_witness:
  "lists_bind_fdt 4 ex_drivers_plain ex_bind_node (Some 10) ex_node (Some None) (Some 1) True
      (ex_gd [])
     = (0, Some None, ex_gd [])
   \<and> lists_bind_fdt 4 ex_drivers_plain ex_bind_node (Some 10) ex_node (Some None) (Some 1) False
      (ex_gd [])
     = (0, Some (Some 101),
        (ex_gd [])\<lparr>world := (),
          calls := calls (ex_gd []) @ [Bind_with_driver_data (Some 10) 1 ''foo@0'' 0 0]\<rparr>)"
proof -
  have skipped: "lists_bind_fdt 4 ex_drivers_plain ex_bind_node (Some 10) ex_node (Some None)
      (Some 1) True (ex_gd []) = (0, Some None, ex_gd [])"
    by (simp add: lists_bind_fdt_def compat_strings.simps driver_check_compatible_def
        device_bind_with_driver_data_def ex_drivers_plain_def ex_drv_generic_def ex_drv_plain_def
        ex_bind_node_def ex_node_def ex_gd_def ENODEV_def ENOENT_def)
  have j: "1 < length ex_drivers_plain" by (simp add: ex_drivers_plain_def)
  have t: "of_match (ex_drivers_plain ! 1) = None"
    by (simp add: ex_drivers_plain_def ex_drv_plain_def)
  have p: "ofnode_get_compatible ex_node
      = Prop_found (''acme,foo-v2'' @ [CHR 0x00] @ ''generic,foo'' @ [CHR 0x00])"
    by (simp add: ex_node_def)
  have ne: "''acme,foo-v2'' @ [CHR 0x00] @ ''generic,foo'' @ [CHR 0x00] \<noteq> []" by simp
  have g: "\<not> (False \<and> \<not> ofnode_pre_reloc ex_node \<and> drv_flags (ex_drivers_plain ! 1) AND 4 = 0)"
    by simp
  have e: "ex_bind_node (Some 10) 1 (ofnode_get_name ex_node) 0 ex_node (world (ex_gd []))
      = (0, 101, ())"
    by (simp add: ex_bind_node_def)
  have nm: "ofnode_get_name ex_node = ''foo@0''" by (simp add: ex_node_def)
  have "lists_bind_fdt 4 ex_drivers_plain ex_bind_node (Some 10) ex_node (Some None) (Some 1) False
      (ex_gd [])
     = (0, map_option (\<lambda>v. Some 101) (Some None),
        (ex_gd [])\<lparr>world := (),
          calls := calls (ex_gd []) @
            [Bind_with_driver_data (Some 10) 1 (ofnode_get_name ex_node) 0 0]\<rparr>)"
    using lists_bind_fdt_forced_driver[where j = 1 and drivers = ex_drivers_plain
        and node = ex_node and pre = False and fl = 4 and ext = ex_bind_node
        and parent = "Some 10" and gd = "ex_gd []" and ret = 0 and dev = 101 and w' = "()"
        and devp = "Some None", OF j t p ne g e]
    by simp
  then have bound: "lists_bind_fdt 4 ex_drivers_plain ex_bind_node (Some 10) ex_node (Some None)
      (Some 1) False (ex_gd [])
     = (0, Some (Some 101),
        (ex_gd [])\<lparr>world := (),
          calls := calls (ex_gd []) @ [Bind_with_driver_data (Some 10) 1 ''foo@0'' 0 0]\<rparr>)"
    unfolding nm by simp
  show ?thesis using skipped bound by (rule conjI)
qed

text \<open>
  C7, the claim as stated fails: restricted to driver 1, which has no \<^verbatim>\<open>of_match\<close>
  table, \<^verbatim>\<open>lists_bind_fdt\<close> calls \<^verbatim>\<open>device_bind_with_driver_data\<close> for that driver
  and returns the new device.
\<close>

theorem lists_bind_fdt_no_table_counterexample:
  "of_match (ex_drivers_plain ! 1) = None
   \<and> lists_bind_fdt 4 ex_drivers_plain ex_bind_node (Some 10) ex_node None (Some 1) False
        (ex_gd [None])
     = (0, None, (ex_gd [None])\<lparr>calls := [Bind_with_driver_data (Some 10) 1 ''foo@0'' 0 0]\<rparr>)"
  by (simp add: lists_bind_fdt_def compat_strings.simps driver_check_compatible_def
      device_bind_with_driver_data_def ex_drivers_plain_def ex_drv_generic_def ex_drv_plain_def
      ex_bind_node_def ex_node_def ex_gd_def ENODEV_def ENOENT_def)

subsection \<open>The pre-relocation check\<close>

text \<open>
  C8. With \<^verbatim>\<open>pre_reloc_only\<close> true: when the loop reaches a compatible string for
  which a driver has been matched (the strings before it bound nothing), the node is
  not marked pre-reloc and the driver does not carry \<^verbatim>\<open>DM_FLAG_PRE_RELOC\<close>, then
  \<^verbatim>\<open>lists_bind_fdt\<close> returns 0 at once, \<^verbatim>\<open>*devp\<close> stays \<^verbatim>\<open>NULL\<close>, and no device has
  been bound: every bind call made before was refused with \<^verbatim>\<open>-ENODEV\<close>.
\<close>

theorem lists_bind_fdt_pre_reloc_skip:
  assumes "ofnode_get_compatible node = Prop_found bytes"
    and "compat_strings bytes = before @ cstr # after"
    and "compat_loop fl drivers ext parent node drv True before gd = (No_match, gd1)"
    and "driver_scan drivers 0 drv cstr = Some (k, entry, oid)"
    and "\<not> ofnode_pre_reloc node" and "drv_flags entry AND fl = 0"
  shows "lists_bind_fdt fl drivers ext parent node devp drv True gd
           = (0, map_option (\<lambda>v. None) devp, gd1)
       \<and> (\<forall>ev\<in>set (new_calls gd gd1). call_ret ev = - ENODEV)"
proof -
  have "compat_loop fl drivers ext parent node drv True (cstr # after) gd1 = (Skipped, gd1)"
    using assms(4,5,6) by simp
  then have "compat_loop fl drivers ext parent node drv True (compat_strings bytes) gd
      = (Skipped, gd1)"
    unfolding assms(2) using compat_loop_append[OF assms(3)] by simp
  then have a: "lists_bind_fdt fl drivers ext parent node devp drv True gd
           = (0, map_option (\<lambda>v. None) devp, gd1)"
    by (simp add: lists_bind_fdt_def assms(1))
  have b: "\<forall>ev\<in>set (new_calls gd gd1). call_ret ev = - ENODEV"
    by (rule compat_loop_refused[OF assms(3)]) simp
  show ?thesis using a b by (rule conjI)
qed

theorem lists_bind_fdt_pre_reloc_skip_witness:
  "lists_bind_fdt 4 ex_drivers_pre ex_bind_refuse (Some 10) ex_node (Some None) None True (ex_gd [])
     = (0, Some None,
        (ex_gd [])\<lparr>calls := [Bind_with_driver_data (Some 10) 1 ''foo@0'' 22 (- 19)]\<rparr>)
   \<and> call_ret (Bind_with_driver_data (Some 10) 1 ''foo@0'' 22 (- 19)) = - ENODEV"
proof -
  let ?gd1 = "(ex_gd [])\<lparr>calls := [Bind_with_driver_data (Some 10) 1 ''foo@0'' 22 (- 19)]\<rparr>"
  have p: "ofnode_get_compatible ex_node
      = Prop_found (''acme,foo-v2'' @ [CHR 0x00] @ ''generic,foo'' @ [CHR 0x00])"
    by (simp add: ex_node_def)
  have cs: "compat_strings (''acme,foo-v2'' @ [CHR 0x00] @ ''generic,foo'' @ [CHR 0x00])
      = [''acme,foo-v2''] @ ''generic,foo'' # []"
    by (simp add: compat_strings.simps)
  have l: "compat_loop 4 ex_drivers_pre ex_bind_refuse (Some 10) ex_node None True
      [''acme,foo-v2''] (ex_gd []) = (No_match, ?gd1)"
    by (simp add: driver_check_compatible_def device_bind_with_driver_data_def
        ex_drivers_pre_def ex_drv_generic_def ex_drv_acme_def ex_bind_refuse_def ex_node_def
        ex_gd_def ENODEV_def ENOENT_def)
  have sc: "driver_scan ex_drivers_pre 0 None ''generic,foo''
      = Some (0, ex_drv_generic, Some \<lparr>id_compatible = ''generic,foo'', id_data = 11\<rparr>)"
    by (simp add: driver_check_compatible_def ex_drivers_pre_def ex_drv_generic_def)
  have n: "\<not> ofnode_pre_reloc ex_node" by (simp add: ex_node_def)
  have f: "drv_flags ex_drv_generic AND 4 = 0" by (simp add: ex_drv_generic_def)
  have nc: "new_calls (ex_gd []) ?gd1 = [Bind_with_driver_data (Some 10) 1 ''foo@0'' 22 (- 19)]"
    by (simp add: new_calls_def ex_gd_def)
  from lists_bind_fdt_pre_reloc_skip[where ext = ex_bind_refuse and parent = "Some 10"
      and devp = "Some None", OF p cs l sc n f]
  show ?thesis unfolding nc by simp
qed

subsection \<open>Nodes that bind no device\<close>

text \<open>
  C9 (as amended). For a node without a \<^verbatim>\<open>compatible\<close> property, and for a node none
  of whose compatible strings is in the \<^verbatim>\<open>of_match\<close> table of any registered driver
  when the call has no driver restriction or the restricting driver has an
  \<^verbatim>\<open>of_match\<close> table, \<^verbatim>\<open>lists_bind_fdt\<close> returns 0, makes no bind call, changes
  nothing, and leaves \<^verbatim>\<open>*devp\<close>, when supplied, set to \<^verbatim>\<open>NULL\<close>.
\<close>

theorem lists_bind_fdt_no_device:
  "(ofnode_get_compatible node = Prop_missing (- FDT_ERR_NOTFOUND)
      \<longrightarrow> lists_bind_fdt fl drivers ext parent node devp drv pre gd
            = (0, map_option (\<lambda>v. None) devp, gd))
   \<and> (ofnode_get_compatible node = Prop_found bytes
        \<and> (\<forall>c\<in>set (compat_strings bytes). \<forall>e\<in>set drivers. \<not> of_match_has e c)
        \<and> (\<forall>j. drv = Some j \<and> j < length drivers \<longrightarrow> of_match (drivers ! j) \<noteq> None)
      \<longrightarrow> lists_bind_fdt fl drivers ext parent node devp drv pre gd
            = (0, map_option (\<lambda>v. None) devp, gd))"
proof -
  have missing: "lists_bind_fdt fl drivers ext parent node devp drv pre gd
            = (0, map_option (\<lambda>v. None) devp, gd)"
    if "ofnode_get_compatible node = Prop_missing (- FDT_ERR_NOTFOUND)"
    using that by (simp add: lists_bind_fdt_def)
  have nomatch: "lists_bind_fdt fl drivers ext parent node devp drv pre gd
            = (0, map_option (\<lambda>v. None) devp, gd)"
    if p: "ofnode_get_compatible node = Prop_found bytes"
      and nm: "\<forall>c\<in>set (compat_strings bytes). \<forall>e\<in>set drivers. \<not> of_match_has e c"
      and tb: "\<forall>j. drv = Some j \<and> j < length drivers \<longrightarrow> of_match (drivers ! j) \<noteq> None"
  proof -
    have "\<forall>c\<in>set (compat_strings bytes). driver_scan drivers 0 drv c = None"
    proof
      fix c assume "c \<in> set (compat_strings bytes)"
      then have "\<forall>e\<in>set drivers. \<not> of_match_has e c" using nm by blast
      then show "driver_scan drivers 0 drv c = None"
        using tb by (intro driver_scan_no_match) simp_all
    qed
    then have "compat_loop fl drivers ext parent node drv pre (compat_strings bytes) gd
        = (No_match, gd)"
      by (rule compat_loop_no_match)
    then show ?thesis by (simp add: lists_bind_fdt_def p)
  qed
  show ?thesis using missing nomatch by blast
qed

theorem lists_bind_fdt_no_device_witness:
  "lists_bind_fdt 4 ex_drivers ex_bind_node (Some 10) ex_node_bare (Some (Some 55)) None False
      (ex_gd []) = (0, Some None, ex_gd [])
   \<and> lists_bind_fdt 4 ex_drivers ex_bind_node (Some 10) ex_node_other (Some (Some 55)) None False
      (ex_gd []) = (0, Some None, ex_gd [])"
proof -
  have p1: "ofnode_get_compatible ex_node_bare = Prop_missing (- FDT_ERR_NOTFOUND)"
    by (simp add: ex_node_bare_def FDT_ERR_NOTFOUND_def)
  have p2: "ofnode_get_compatible ex_node_other = Prop_found (''vendor,bar'' @ [CHR 0x00])"
    by (simp add: ex_node_other_def)
  have nm: "\<forall>c\<in>set (compat_strings (''vendor,bar'' @ [CHR 0x00])).
      \<forall>e\<in>set ex_drivers. \<not> of_match_has e c"
    by (simp add: compat_strings.simps of_match_has_def ex_drivers_def ex_drv_generic_def
        ex_drv_acme_def)
  have tb: "\<forall>j. (None :: nat option) = Some j \<and> j < length ex_drivers
      \<longrightarrow> of_match (ex_drivers ! j) \<noteq> None"
    by simp
  have a: "lists_bind_fdt 4 ex_drivers ex_bind_node (Some 10) ex_node_bare (Some (Some 55)) None
      False (ex_gd []) = (0, Some None, ex_gd [])"
    using lists_bind_fdt_no_device[where node = ex_node_bare and fl = 4 and drivers = ex_drivers
        and ext = ex_bind_node and parent = "Some 10" and devp = "Some (Some 55)"
        and drv = None and pre = False and gd = "ex_gd []"] p1
    by simp
  have b: "lists_bind_fdt 4 ex_drivers ex_bind_node (Some 10) ex_node_other (Some (Some 55)) None
      False (ex_gd []) = (0, Some None, ex_gd [])"
    using lists_bind_fdt_no_device[where node = ex_node_other and fl = 4 and drivers = ex_drivers
        and ext = ex_bind_node and parent = "Some 10" and devp = "Some (Some 55)"
        and drv = None and pre = False and gd = "ex_gd []"
        and bytes = "''vendor,bar'' @ [CHR 0x00]"] p2 nm tb
    by simp
  show ?thesis using a b by simp
qed

text \<open>
  C9, the claim as stated fails: no driver's \<^verbatim>\<open>of_match\<close> table contains the node's
  compatible string, but the call is restricted to driver 1, which has no table; the
  node is bound and \<^verbatim>\<open>*devp\<close> is the new device.
\<close>

theorem lists_bind_fdt_no_match_counterexample:
  "compat_strings (''vendor,bar'' @ [CHR 0x00]) = [''vendor,bar'']
   \<and> \<not> of_match_has ex_drv_generic ''vendor,bar''
   \<and> \<not> of_match_has ex_drv_plain ''vendor,bar''
   \<and> lists_bind_fdt 4 ex_drivers_plain ex_bind_node (Some 10) ex_node_other (Some None) (Some 1)
        False (ex_gd [])
     = (0, Some (Some 101),
        (ex_gd [])\<lparr>calls := [Bind_with_driver_data (Some 10) 1 ''bar@1'' 0 0]\<rparr>)"
proof -
  have a: "compat_strings (''vendor,bar'' @ [CHR 0x00]) = [''vendor,bar'']"
    by (simp add: compat_strings.simps)
  have b: "\<not> of_match_has ex_drv_generic ''vendor,bar''"
    by (simp add: of_match_has_def ex_drv_generic_def)
  have c: "\<not> of_match_has ex_drv_plain ''vendor,bar''"
    by (simp add: of_match_has_def ex_drv_plain_def)
  have d: "lists_bind_fdt 4 ex_drivers_plain ex_bind_node (Some 10) ex_node_other (Some None)
        (Some 1) False (ex_gd [])
     = (0, Some (Some 101),
        (ex_gd [])\<lparr>calls := [Bind_with_driver_data (Some 10) 1 ''bar@1'' 0 0]\<rparr>)"
    by (simp add: lists_bind_fdt_def compat_strings.simps driver_check_compatible_def
        device_bind_with_driver_data_def ex_drivers_plain_def ex_drv_generic_def ex_drv_plain_def
        ex_bind_node_def ex_node_other_def ex_gd_def ENODEV_def ENOENT_def)
  show ?thesis using a b c d by (intro conjI)
qed

section \<open>Properties of the probe walk\<close>










section \<open>Properties of the extended scan\<close>

lemma scan_paths_append:
  "scan_paths fl drivers ext tree pre before ret gd = (0, gd1) \<Longrightarrow>
   scan_paths fl drivers ext tree pre (before @ rest) ret gd
     = scan_paths fl drivers ext tree pre rest 0 gd1"
proof (induction before arbitrary: ret gd)
  case Nil
  then show ?case by simp
next
  case (Cons p ps)
  obtain r' g' where s: "dm_scan_fdt_ofnode_path fl drivers ext tree p pre gd = (r', g')"
    by (cases "dm_scan_fdt_ofnode_path fl drivers ext tree p pre gd") auto
  have z: "r' = 0" using Cons.prems s by (auto split: if_splits)
  then have "scan_paths fl drivers ext tree pre ps 0 g' = (0, gd1)"
    using Cons.prems s by simp
  from Cons.IH[OF this] show ?case using s z by simp
qed

text \<open>
  C3 (as amended). In \<^verbatim>\<open>dm_extended_scan\<close>, when the scan of the root level returns
  an error, that error is returned at once and no auxiliary path is scanned; when the
  root level and the auxiliary paths before some path scan without error and the scan
  of that path returns an error, that error is returned at once and the paths after it
  are not scanned. In both cases the state is the one the failing scan left.
\<close>

theorem dm_extended_scan_first_error:
  "(dm_scan_fdt fl drivers ext tree pre gd = (r0, gd0) \<and> r0 \<noteq> 0
      \<longrightarrow> dm_extended_scan fl drivers ext tree pre gd = (r0, gd0))
   \<and> (dm_scan_fdt fl drivers ext tree pre gd = (0, gd0)
        \<and> nodes = before @ path # after
        \<and> scan_paths fl drivers ext tree pre before 0 gd0 = (0, gd1)
        \<and> dm_scan_fdt_ofnode_path fl drivers ext tree path pre gd1 = (r, gd2) \<and> r \<noteq> 0
      \<longrightarrow> dm_extended_scan fl drivers ext tree pre gd = (r, gd2))"
proof -
  have one: "dm_extended_scan fl drivers ext tree pre gd = (r0, gd0)"
    if "dm_scan_fdt fl drivers ext tree pre gd = (r0, gd0)" "r0 \<noteq> 0"
    using that by (simp add: dm_extended_scan_def)
  have two: "dm_extended_scan fl drivers ext tree pre gd = (r, gd2)"
    if a: "dm_scan_fdt fl drivers ext tree pre gd = (0, gd0)"
      and b: "nodes = before @ path # after"
      and c: "scan_paths fl drivers ext tree pre before 0 gd0 = (0, gd1)"
      and d: "dm_scan_fdt_ofnode_path fl drivers ext tree path pre gd1 = (r, gd2)"
      and e: "r \<noteq> 0"
  proof -
    have "scan_paths fl drivers ext tree pre (before @ path # after) 0 gd0
        = scan_paths fl drivers ext tree pre (path # after) 0 gd1"
      by (rule scan_paths_append[OF c])
    also have "\<dots> = (r, gd2)" using d e by simp
    finally show ?thesis using a unfolding dm_extended_scan_def b[symmetric] by simp
  qed
  show ?thesis using one two by blast
qed

theorem dm_extended_scan_first_error_witness:
  "dm_extended_scan 4 ex_drivers ex_bind_node ex_tree False (ex_gd []) = (- 11, ex_gd [])
   \<and> dm_extended_scan 4 ex_drivers ex_bind_node ex_tree2 False (ex_gd []) = (- 11, ex_gd [])"
proof -
  have r1: "dm_scan_fdt 4 ex_drivers ex_bind_node ex_tree False (ex_gd []) = (- 11, ex_gd [])"
    by (simp add: dm_scan_fdt_def dm_scan_fdt_node_def lists_bind_fdt_def ex_tree_def
        ex_node_bad_def FDT_ERR_NOTFOUND_def)
  have n1: "(- 11 :: int) \<noteq> 0" by simp
  have a: "dm_extended_scan 4 ex_drivers ex_bind_node ex_tree False (ex_gd []) = (- 11, ex_gd [])"
    using dm_extended_scan_first_error[where fl = 4 and drivers = ex_drivers
        and ext = ex_bind_node and tree = ex_tree and pre = False and gd = "ex_gd []"
        and ?r0.0 = "- 11" and ?gd0.0 = "ex_gd []"] r1 n1
    by blast
  have r2: "dm_scan_fdt 4 ex_drivers ex_bind_node ex_tree2 False (ex_gd []) = (0, ex_gd [])"
    by (simp add: dm_scan_fdt_def dm_scan_fdt_node_def lists_bind_fdt_def compat_strings.simps
        driver_check_compatible_def ex_tree2_def ex_node_other_def ex_drivers_def
        ex_drv_generic_def ex_drv_acme_def ENOENT_def)
  have nd: "nodes = [] @ ''/chosen'' # [''/clocks'', ''/firmware'']" by (simp add: nodes_def)
  have sp: "scan_paths 4 ex_drivers ex_bind_node ex_tree2 False [] 0 (ex_gd []) = (0, ex_gd [])"
    by simp
  have ch: "dm_scan_fdt_ofnode_path 4 ex_drivers ex_bind_node ex_tree2 ''/chosen'' False (ex_gd [])
      = (- 11, ex_gd [])"
    by (simp add: dm_scan_fdt_ofnode_path_def dm_scan_fdt_node_def lists_bind_fdt_def
        ex_tree2_def ex_node_bad_def FDT_ERR_NOTFOUND_def)
  have b: "dm_extended_scan 4 ex_drivers ex_bind_node ex_tree2 False (ex_gd []) = (- 11, ex_gd [])"
    using dm_extended_scan_first_error[where fl = 4 and drivers = ex_drivers
        and ext = ex_bind_node and tree = ex_tree2 and pre = False and gd = "ex_gd []"
        and ?gd0.0 = "ex_gd []" and before = "[]" and path = "''/chosen''"
        and after = "[''/clocks'', ''/firmware'']" and ?gd1.0 = "ex_gd []" and r = "- 11"
        and ?gd2.0 = "ex_gd []"] r2 nd sp ch n1
    by blast
  show ?thesis using a b by (rule conjI)
qed

text \<open>
  C3, the claim as stated fails. When the root level fails, \<^verbatim>\<open>/chosen\<close> is not
  scanned, though its scan would bind a device; when \<^verbatim>\<open>/chosen\<close> fails,
  \<^verbatim>\<open>/firmware\<close> is not scanned, though its scan would bind a device. In both runs no
  bind call is made.
\<close>

theorem dm_extended_scan_remaining_counterexample:
  "dm_extended_scan 4 ex_drivers ex_bind_node ex_tree False (ex_gd [None]) = (- 11, ex_gd [None])
   \<and> dm_scan_fdt_ofnode_path 4 ex_drivers ex_bind_node ex_tree ''/chosen'' False (ex_gd [None])
       = (0, (ex_gd [None])\<lparr>calls := [Bind_with_driver_data (Some 10) 1 ''foo@0'' 22 0]\<rparr>)
   \<and> dm_extended_scan 4 ex_drivers ex_bind_node ex_tree2 False (ex_gd [None])
       = (- 11, ex_gd [None])
   \<and> dm_scan_fdt_ofnode_path 4 ex_drivers ex_bind_node ex_tree2 ''/firmware'' False (ex_gd [None])
       = (0, (ex_gd [None])\<lparr>calls := [Bind_with_driver_data (Some 10) 1 ''foo@0'' 22 0]\<rparr>)"
proof -
  have a: "dm_extended_scan 4 ex_drivers ex_bind_node ex_tree False (ex_gd [None])
      = (- 11, ex_gd [None])"
    by (simp add: dm_extended_scan_def dm_scan_fdt_def dm_scan_fdt_node_def lists_bind_fdt_def
        ex_tree_def ex_node_bad_def FDT_ERR_NOTFOUND_def)
  have b: "dm_scan_fdt_ofnode_path 4 ex_drivers ex_bind_node ex_tree ''/chosen'' False
      (ex_gd [None])
       = (0, (ex_gd [None])\<lparr>calls := [Bind_with_driver_data (Some 10) 1 ''foo@0'' 22 0]\<rparr>)"
    by (simp add: dm_scan_fdt_ofnode_path_def dm_scan_fdt_node_def lists_bind_fdt_def
        compat_strings.simps driver_check_compatible_def device_bind_with_driver_data_def
        ex_tree_def ex_node_def ex_drivers_def ex_drv_generic_def ex_drv_acme_def
        ex_bind_node_def ex_gd_def ENOENT_def ENODEV_def)
  have c: "dm_extended_scan 4 ex_drivers ex_bind_node ex_tree2 False (ex_gd [None])
       = (- 11, ex_gd [None])"
    by (simp add: dm_extended_scan_def dm_scan_fdt_def dm_scan_fdt_ofnode_path_def
        dm_scan_fdt_node_def lists_bind_fdt_def compat_strings.simps driver_check_compatible_def
        nodes_def ex_tree2_def ex_node_other_def ex_node_bad_def ex_drivers_def
        ex_drv_generic_def ex_drv_acme_def ENOENT_def FDT_ERR_NOTFOUND_def)
  have d: "dm_scan_fdt_ofnode_path 4 ex_drivers ex_bind_node ex_tree2 ''/firmware'' False
      (ex_gd [None])
       = (0, (ex_gd [None])\<lparr>calls := [Bind_with_driver_data (Some 10) 1 ''foo@0'' 22 0]\<rparr>)"
    by (simp add: dm_scan_fdt_ofnode_path_def dm_scan_fdt_node_def lists_bind_fdt_def
        compat_strings.simps driver_check_compatible_def device_bind_with_driver_data_def
        ex_tree2_def ex_node_def ex_drivers_def ex_drv_generic_def ex_drv_acme_def
        ex_bind_node_def ex_gd_def ENOENT_def ENODEV_def)
  show ?thesis using a b c d by (intro conjI)
qed

section \<open>Properties of \<^verbatim>\<open>dm_uninit\<close>\<close>

text \<open>
  C10. \<^verbatim>\<open>dm_uninit\<close> calls \<^verbatim>\<open>device_remove\<close> on the root with
  \<^verbatim>\<open>DM_REMOVE_NON_VITAL\<close>, then \<^verbatim>\<open>device_remove\<close> on the root with
  \<^verbatim>\<open>DM_REMOVE_NORMAL\<close>, then \<^verbatim>\<open>device_unbind\<close> on the root, each on the state the
  call before it left; whatever the three calls return, it sets \<^verbatim>\<open>gd->dm_root\<close> to
  \<^verbatim>\<open>NULL\<close> and returns 0, and the state it leaves is the one the three calls produced.
  Called again, it makes the same three calls with \<^verbatim>\<open>NULL\<close> for the device, leaves
  \<^verbatim>\<open>gd->dm_root\<close> \<^verbatim>\<open>NULL\<close> and returns 0.
\<close>

theorem dm_uninit_clears_root:
  assumes "rm (gd_dm_root gd) DM_REMOVE_NON_VITAL (world gd) = (r1, w1)"
    and "rm (gd_dm_root gd) DM_REMOVE_NORMAL w1 = (r2, w2)"
    and "ub (gd_dm_root gd) w2 = (r3, w3)"
    and "rm None DM_REMOVE_NON_VITAL w3 = (r4, w4)"
    and "rm None DM_REMOVE_NORMAL w4 = (r5, w5)"
    and "ub None w5 = (r6, w6)"
  shows "dm_uninit rm ub gd
           = (0, gd\<lparr>gd_dm_root := None, world := w3,
                   calls := calls gd @
                     [Device_remove (gd_dm_root gd) DM_REMOVE_NON_VITAL r1,
                      Device_remove (gd_dm_root gd) DM_REMOVE_NORMAL r2,
                      Device_unbind (gd_dm_root gd) r3]\<rparr>)
       \<and> dm_uninit rm ub (snd (dm_uninit rm ub gd))
           = (0, gd\<lparr>gd_dm_root := None, world := w6,
                   calls := calls gd @
                     [Device_remove (gd_dm_root gd) DM_REMOVE_NON_VITAL r1,
                      Device_remove (gd_dm_root gd) DM_REMOVE_NORMAL r2,
                      Device_unbind (gd_dm_root gd) r3,
                      Device_remove None DM_REMOVE_NON_VITAL r4,
                      Device_remove None DM_REMOVE_NORMAL r5,
                      Device_unbind None r6]\<rparr>)
       \<and> fst (dm_uninit rm ub gd) = 0
       \<and> gd_dm_root (snd (dm_uninit rm ub gd)) = None
       \<and> fst (dm_uninit rm ub (snd (dm_uninit rm ub gd))) = 0
       \<and> gd_dm_root (snd (dm_uninit rm ub (snd (dm_uninit rm ub gd)))) = None"
proof -
  have first: "dm_uninit rm ub gd
           = (0, gd\<lparr>gd_dm_root := None, world := w3,
                   calls := calls gd @
                     [Device_remove (gd_dm_root gd) DM_REMOVE_NON_VITAL r1,
                      Device_remove (gd_dm_root gd) DM_REMOVE_NORMAL r2,
                      Device_unbind (gd_dm_root gd) r3]\<rparr>)"
    using assms(1,2,3)
    by (simp add: dm_uninit_def Let_def dm_root_def device_remove_def device_unbind_def)
  have second: "dm_uninit rm ub (snd (dm_uninit rm ub gd))
           = (0, gd\<lparr>gd_dm_root := None, world := w6,
                   calls := calls gd @
                     [Device_remove (gd_dm_root gd) DM_REMOVE_NON_VITAL r1,
                      Device_remove (gd_dm_root gd) DM_REMOVE_NORMAL r2,
                      Device_unbind (gd_dm_root gd) r3,
                      Device_remove None DM_REMOVE_NON_VITAL r4,
                      Device_remove None DM_REMOVE_NORMAL r5,
                      Device_unbind None r6]\<rparr>)"
    unfolding first using assms(4,5,6)
    by (simp add: dm_uninit_def Let_def dm_root_def device_remove_def device_unbind_def)
  have third: "fst (dm_uninit rm ub gd) = 0" "gd_dm_root (snd (dm_uninit rm ub gd)) = None"
    unfolding first by simp_all
  have fourth: "fst (dm_uninit rm ub (snd (dm_uninit rm ub gd))) = 0"
    "gd_dm_root (snd (dm_uninit rm ub (snd (dm_uninit rm ub gd)))) = None"
    unfolding second by simp_all
  show ?thesis by (intro conjI) (rule first, rule second, rule third, rule third, rule fourth,
      rule fourth)
qed

theorem dm_uninit_clears_root_witness:
  "dm_uninit ex_remove ex_unbind (ex_gd [])
     = (0, (ex_gd [])\<lparr>gd_dm_root := None, world := (),
             calls := calls (ex_gd []) @
               [Device_remove (gd_dm_root (ex_gd [])) DM_REMOVE_NON_VITAL 0,
                Device_remove (gd_dm_root (ex_gd [])) DM_REMOVE_NORMAL 0,
                Device_unbind (gd_dm_root (ex_gd [])) 0]\<rparr>)
   \<and> gd_dm_root (ex_gd []) = Some 10
   \<and> fst (dm_uninit ex_remove ex_unbind (snd (dm_uninit ex_remove ex_unbind (ex_gd [])))) = 0
   \<and> new_calls (snd (dm_uninit ex_remove ex_unbind (ex_gd [])))
        (snd (dm_uninit ex_remove ex_unbind (snd (dm_uninit ex_remove ex_unbind (ex_gd [])))))
       = [Device_remove None DM_REMOVE_NON_VITAL (- 22),
          Device_remove None DM_REMOVE_NORMAL (- 22),
          Device_unbind None (- 22)]"
proof -
  have a: "ex_remove (gd_dm_root (ex_gd [])) DM_REMOVE_NON_VITAL (world (ex_gd [])) = (0, ())"
    by (simp add: ex_remove_def ex_gd_def)
  have b: "ex_remove (gd_dm_root (ex_gd [])) DM_REMOVE_NORMAL () = (0, ())"
    by (simp add: ex_remove_def ex_gd_def)
  have c: "ex_unbind (gd_dm_root (ex_gd [])) () = (0, ())"
    by (simp add: ex_unbind_def ex_gd_def)
  have d: "ex_remove None DM_REMOVE_NON_VITAL () = (- 22, ())" by (simp add: ex_remove_def)
  have e: "ex_remove None DM_REMOVE_NORMAL () = (- 22, ())" by (simp add: ex_remove_def)
  have f: "ex_unbind None () = (- 22, ())" by (simp add: ex_unbind_def)
  note t = dm_uninit_clears_root[where rm = ex_remove and ub = ex_unbind and gd = "ex_gd []",
      OF a b c d e f]
  have r: "gd_dm_root (ex_gd []) = Some 10" by (simp add: ex_gd_def)
  have one: "dm_uninit ex_remove ex_unbind (ex_gd [])
     = (0, (ex_gd [])\<lparr>gd_dm_root := None, world := (),
             calls := calls (ex_gd []) @
               [Device_remove (gd_dm_root (ex_gd [])) DM_REMOVE_NON_VITAL 0,
                Device_remove (gd_dm_root (ex_gd [])) DM_REMOVE_NORMAL 0,
                Device_unbind (gd_dm_root (ex_gd [])) 0]\<rparr>)"
    using t by (rule conjunct1)
  have two: "dm_uninit ex_remove ex_unbind (snd (dm_uninit ex_remove ex_unbind (ex_gd [])))
     = (0, (ex_gd [])\<lparr>gd_dm_root := None, world := (),
             calls := calls (ex_gd []) @
               [Device_remove (gd_dm_root (ex_gd [])) DM_REMOVE_NON_VITAL 0,
                Device_remove (gd_dm_root (ex_gd [])) DM_REMOVE_NORMAL 0,
                Device_unbind (gd_dm_root (ex_gd [])) 0,
                Device_remove None DM_REMOVE_NON_VITAL (- 22),
                Device_remove None DM_REMOVE_NORMAL (- 22),
                Device_unbind None (- 22)]\<rparr>)"
    using t[THEN conjunct2] by (rule conjunct1)
  have three: "fst (dm_uninit ex_remove ex_unbind
      (snd (dm_uninit ex_remove ex_unbind (ex_gd [])))) = 0"
    unfolding two by simp
  have four: "new_calls (snd (dm_uninit ex_remove ex_unbind (ex_gd [])))
        (snd (dm_uninit ex_remove ex_unbind (snd (dm_uninit ex_remove ex_unbind (ex_gd [])))))
       = [Device_remove None DM_REMOVE_NON_VITAL (- 22),
          Device_remove None DM_REMOVE_NORMAL (- 22),
          Device_unbind None (- 22)]"
    unfolding two unfolding one by (simp add: new_calls_def)
  show ?thesis using one r three four by (intro conjI)
qed

end
